theory Spec2Isabelle
  imports Complex_Main "HOL-Library.Log_Nat"
begin

section \<open>JavaScript numbers\<close>

text \<open>
  A JavaScript Number is an IEEE 754 binary64 value. The finite ones are the numbers
  \<open>m * 2 ^ e\<close> with \<open>\<bar>m\<bar> < 2 ^ 53\<close> and \<open>- 1074 \<le> e\<close>; they are kept as the real
  number they denote. The two zeros are identified (no operation of the modelled
  code tells them apart). Every arithmetic operation computes the exact result and
  rounds it to the nearest double, ties to even, overflowing to an infinity from
  \<open>2 ^ 1024\<close> on.
\<close>

datatype jsnum = Num real | PosInf | NegInf | NaN

definition pow2 :: "int \<Rightarrow> real" where
  "pow2 k = (if 0 \<le> k then 2 ^ nat k else 1 / 2 ^ nat (- k))"

text \<open>
  \<open>ilog2 a\<close> is the binary exponent of a positive number,
  \<open>2 ^ ilog2 a \<le> a < 2 ^ (ilog2 a + 1)\<close>: one less than the bit length of \<open>\<lfloor>a\<rfloor>\<close>
  from \<open>1\<close> on, and below \<open>1\<close> minus the least \<open>k\<close> with \<open>1 / a \<le> 2 ^ k\<close>.
\<close>

definition ilog2 :: "real \<Rightarrow> int" where
  "ilog2 a = (if 1 \<le> a then bitlen \<lfloor>a\<rfloor> - 1 else - bitlen (\<lceil>1 / a\<rceil> - 1))"

definition round_half_even :: "real \<Rightarrow> int" where
  "round_half_even q = (let f = \<lfloor>q\<rfloor>; r = q - of_int f in
      if r < 1 / 2 then f else if 1 / 2 < r then f + 1 else if even f then f else f + 1)"

text \<open>
  Rounding an exact result to binary64: the spacing of the doubles around \<open>a\<close> is
  \<open>2 ^ (e - 52)\<close> for the exponent \<open>e\<close> of \<open>a\<close>, and \<open>2 ^ (- 1074)\<close> among the
  subnormals.
\<close>

definition to_double :: "real \<Rightarrow> jsnum" where
  "to_double x = (if x = 0 then Num 0 else
     let a = \<bar>x\<bar>; e = max (ilog2 a) (- 1022); u = pow2 (e - 52);
         r = of_int (round_half_even (a / u)) * u
     in if pow2 1024 \<le> r then (if 0 < x then PosInf else NegInf)
        else Num (if 0 < x then r else - r))"

text \<open>A decimal literal of the source (\<open>1.3\<close>, \<open>0.08\<close>) denotes the double nearest to it.\<close>

definition lit :: "real \<Rightarrow> jsnum" where
  "lit x = to_double x"

fun js_neg :: "jsnum \<Rightarrow> jsnum" where
  "js_neg (Num a) = Num (- a)"
| "js_neg PosInf = NegInf"
| "js_neg NegInf = PosInf"
| "js_neg NaN = NaN"

fun js_add :: "jsnum \<Rightarrow> jsnum \<Rightarrow> jsnum" where
  "js_add (Num a) (Num b) = to_double (a + b)"
| "js_add NaN y = NaN"
| "js_add x NaN = NaN"
| "js_add PosInf NegInf = NaN"
| "js_add NegInf PosInf = NaN"
| "js_add PosInf y = PosInf"
| "js_add NegInf y = NegInf"
| "js_add (Num a) y = y"

definition js_sub :: "jsnum \<Rightarrow> jsnum \<Rightarrow> jsnum" where
  "js_sub x y = js_add x (js_neg y)"

fun js_sgn :: "jsnum \<Rightarrow> int" where
  "js_sgn (Num a) = (if 0 < a then 1 else if a < 0 then - 1 else 0)"
| "js_sgn PosInf = 1"
| "js_sgn NegInf = - 1"
| "js_sgn NaN = 0"

definition js_mul :: "jsnum \<Rightarrow> jsnum \<Rightarrow> jsnum" where
  "js_mul x y =
     (case (x, y) of
        (Num a, Num b) \<Rightarrow> to_double (a * b)
      | _ \<Rightarrow>
         if x = NaN \<or> y = NaN then NaN
         else if js_sgn x * js_sgn y = 0 then NaN
         else if 0 < js_sgn x * js_sgn y then PosInf else NegInf)"

text \<open>The comparisons \<open><\<close>, \<open>>=\<close> and \<open>===\<close> on Numbers: any comparison with NaN is false.\<close>

fun js_lt :: "jsnum \<Rightarrow> jsnum \<Rightarrow> bool" where
  "js_lt (Num a) (Num b) = (a < b)"
| "js_lt NaN y = False"
| "js_lt x NaN = False"
| "js_lt x NegInf = False"
| "js_lt PosInf y = False"
| "js_lt x PosInf = True"
| "js_lt NegInf y = True"

definition js_ge :: "jsnum \<Rightarrow> jsnum \<Rightarrow> bool" where
  "js_ge x y = (x \<noteq> NaN \<and> y \<noteq> NaN \<and> \<not> js_lt x y)"

definition js_strict_eq :: "jsnum \<Rightarrow> jsnum \<Rightarrow> bool" where
  "js_strict_eq x y = (x \<noteq> NaN \<and> x = y)"

text \<open>\<open>Math.round\<close>: the nearest integer, a tie going towards \<open>+\<infinity>\<close>.\<close>

fun Math_round :: "jsnum \<Rightarrow> jsnum" where
  "Math_round (Num a) = Num (of_int \<lfloor>a + 1 / 2\<rfloor>)"
| "Math_round x = x"

text \<open>\<open>Math.max\<close> of two Numbers: NaN when either is NaN.\<close>

definition Math_max :: "jsnum \<Rightarrow> jsnum \<Rightarrow> jsnum" where
  "Math_max x y = (if x = NaN \<or> y = NaN then NaN else if js_lt x y then y else x)"

text \<open>
  \<open>v || d\<close> for a field that holds a Number or is missing (\<open>None\<close>): the default
  replaces a missing field, \<open>0\<close> and NaN.
\<close>

fun or_default :: "jsnum option \<Rightarrow> jsnum \<Rightarrow> jsnum" where
  "or_default None d = d"
| "or_default (Some v) d = (if v = NaN \<or> v = Num 0 then d else v)"

section \<open>The SM-2 scheduler\<close>

text \<open>
  \<open>calculateSpacedRepetition\<close> of the main server. The first argument is the value of
  \<open>Date.now()\<close>; \<open>nextReview\<close> is the time value handed to \<open>new Date\<close>.
\<close>

record sr_result =
  repetitions :: jsnum
  interval :: jsnum
  easeFactor :: jsnum
  nextReview :: jsnum

definition calculateSpacedRepetition ::
    "jsnum \<Rightarrow> jsnum \<Rightarrow> jsnum \<Rightarrow> jsnum \<Rightarrow> jsnum \<Rightarrow> sr_result" where
  "calculateSpacedRepetition now quality reps ef ivl =
     (let reps' = (if js_lt quality (Num 3) then Num 0 else js_add reps (Num 1));
          ivl' = (if js_lt quality (Num 3) then Num 1
                  else if js_strict_eq reps (Num 0) then Num 1
                  else if js_strict_eq reps (Num 1) then Num 6
                  else Math_round (js_mul ivl ef))
      in \<lparr> repetitions = reps',
           interval = ivl',
           easeFactor = Math_max (lit (13 / 10))
              (js_add ef
                 (js_sub (lit (1 / 10))
                    (js_mul (js_sub (Num 5) quality)
                       (js_add (lit (8 / 100))
                          (js_mul (js_sub (Num 5) quality) (lit (2 / 100))))))),
           nextReview = js_add now
              (js_mul (js_mul (js_mul (js_mul ivl' (Num 24)) (Num 60)) (Num 60)) (Num 1000)) \<rparr>)"

text \<open>The copy of the function in the backend variant of the server.\<close>

definition calculateSpacedRepetition_backend ::
    "jsnum \<Rightarrow> jsnum \<Rightarrow> jsnum \<Rightarrow> jsnum \<Rightarrow> jsnum \<Rightarrow> sr_result" where
  "calculateSpacedRepetition_backend now quality reps ef ivl =
     (let reps' = (if js_lt quality (Num 3) then Num 0 else js_add reps (Num 1));
          ivl' = (if js_lt quality (Num 3) then Num 1
                  else if js_strict_eq reps (Num 0) then Num 1
                  else if js_strict_eq reps (Num 1) then Num 6
                  else Math_round (js_mul ivl ef));
          ef' = Math_max (lit (13 / 10))
                  (js_add ef
                     (js_sub (lit (1 / 10))
                        (js_mul (js_sub (Num 5) quality)
                           (js_add (lit (8 / 100))
                              (js_mul (js_sub (Num 5) quality) (lit (2 / 100)))))))
      in \<lparr> repetitions = reps',
           interval = ivl',
           easeFactor = ef',
           nextReview = js_add now
              (js_mul (js_mul (js_mul (js_mul ivl' (Num 24)) (Num 60)) (Num 60)) (Num 1000)) \<rparr>)"

text \<open>The summand of the ease-factor update, as both copies compute it.\<close>

definition ease_delta :: "jsnum \<Rightarrow> jsnum" where
  "ease_delta quality =
     js_sub (lit (1 / 10))
       (js_mul (js_sub (Num 5) quality)
          (js_add (lit (8 / 100)) (js_mul (js_sub (Num 5) quality) (lit (2 / 100)))))"

fun is_num :: "jsnum \<Rightarrow> bool" where
  "is_num (Num a) = True"
| "is_num PosInf = False"
| "is_num NegInf = False"
| "is_num NaN = False"

section \<open>The review endpoint\<close>

text \<open>
  \<open>POST /api/spaced-repetition/review\<close>. \<open>req.userId\<close> is \<open>'demo'\<close> or the id of an
  authenticated user; \<open>cardId\<close> is \<open>None\<close> when the request carries no id that
  \<open>ObjectId.isValid\<close> accepts. A card document holds its scheduling fields or lacks
  them. The \<open>users\<close> collection is kept as the \<open>studyStats.cardsReviewed\<close> counter of
  each user document.
\<close>

datatype user = Demo | User nat

record flashcard =
  card_userId :: nat
  card_repetitions :: "jsnum option"
  card_easeFactor :: "jsnum option"
  card_interval :: "jsnum option"
  card_nextReview :: "jsnum option"
  card_lastReview :: "jsnum option"

record review_db =
  flashcards :: "nat \<rightharpoonup> flashcard"
  cardsReviewed :: "nat \<rightharpoonup> int"

text \<open>
  The handler answers with an HTTP status. After both updates it evaluates
  \<open>res.json({ nextReview, interval })\<close> outside the block that declares
  \<open>nextReview\<close> and \<open>interval\<close>: the ReferenceError is caught and answered with 500,
  for the demo user as well.
\<close>

definition review_card :: "jsnum \<Rightarrow> jsnum \<Rightarrow> flashcard \<Rightarrow> flashcard" where
  "review_card now quality doc =
     (let r = calculateSpacedRepetition now quality
                (or_default (card_repetitions doc) (Num 0))
                (or_default (card_easeFactor doc) (lit (25 / 10)))
                (or_default (card_interval doc) (Num 1))
      in doc\<lparr> card_repetitions := Some (repetitions r),
               card_interval := Some (interval r),
               card_easeFactor := Some (easeFactor r),
               card_nextReview := Some (nextReview r),
               card_lastReview := Some now \<rparr>)"

definition review_handler ::
    "jsnum \<Rightarrow> user \<Rightarrow> nat option \<Rightarrow> jsnum \<Rightarrow> review_db \<Rightarrow> nat \<times> review_db" where
  "review_handler now uid cardId quality db =
     (case uid of
        Demo \<Rightarrow> (500, db)
      | User u \<Rightarrow>
          (case cardId of
             None \<Rightarrow> (404, db)
           | Some c \<Rightarrow>
               (case flashcards db c of
                  None \<Rightarrow> (404, db)
                | Some doc \<Rightarrow>
                    if card_userId doc = u
                    then (500,
                          db\<lparr> flashcards := (flashcards db)(c \<mapsto> review_card now quality doc),
                              cardsReviewed :=
                                (case cardsReviewed db u of
                                   None \<Rightarrow> cardsReviewed db
                                 | Some n \<Rightarrow> (cardsReviewed db)(u \<mapsto> n + 1)) \<rparr>)
                    else (404, db))))"

text \<open>A sequence of review requests of one user for one card, each with its clock reading.\<close>

fun review_all :: "nat \<Rightarrow> nat \<Rightarrow> (jsnum \<times> jsnum) list \<Rightarrow> review_db \<Rightarrow> review_db" where
  "review_all u c [] db = db"
| "review_all u c ((now, quality) # rs) db =
     review_all u c rs (snd (review_handler now (User u) (Some c) quality db))"

definition new_card :: "nat \<Rightarrow> flashcard" where
  "new_card u = \<lparr> card_userId = u, card_repetitions = Some (Num 0),
       card_easeFactor = Some (lit (25 / 10)), card_interval = Some (Num 1),
       card_nextReview = None, card_lastReview = None \<rparr>"

section \<open>Question-batch sessions\<close>

text \<open>
  The generator \<open>generateQuestionBatch\<close> calls the language model; its outcome is an
  input of the model: \<open>None\<close> when it throws, else the questions it returns (the schema
  of its answer makes each a \<open>payload\<close>). \<open>new ObjectId()\<close> draws fresh ids from a
  counter. Strings are lists of code units; \<open>substring(0, n)\<close> is \<open>take n\<close>.
\<close>

datatype q_status = unseen | shown

record payload =
  question :: string
  options :: "string list"
  correctAnswer :: string
  explanation :: string

record session_question = payload +
  q_id :: nat
  status :: q_status
  index :: int
  seenAt :: "int option"

record question_batch =
  batch_id :: nat
  sessionId :: nat
  batchNumber :: int
  questions :: "session_question list"
  batch_createdAt :: int

record study_session =
  userId :: nat
  topicKey :: string
  sourceFileIds :: "nat list"
  contextSummary :: string
  currentBatch :: int
  totalGenerated :: int
  previousTopics :: "string list"
  createdAt :: int
  updatedAt :: int

record cached_session =
  cached_contextSummary :: string
  cached_topicKey :: string
  cached_questions :: "session_question list"

record file_doc =
  file_id :: nat
  file_userId :: nat
  textContent :: string

record server =
  questionSessionCache :: "nat \<rightharpoonup> cached_session"
  question_batches :: "question_batch list"
  study_sessions :: "nat \<rightharpoonup> study_session"
  files :: "file_doc list"
  next_oid :: nat

record next_response =
  resp_questions :: "session_question list"
  remaining :: int
  newBatchGenerated :: bool
  needsNewBatch :: bool

text \<open>\<open>xs.slice(0, e)\<close>: a negative end counts from the end of the array.\<close>

definition js_slice0 :: "int \<Rightarrow> 'a list \<Rightarrow> 'a list" where
  "js_slice0 e xs = (if e < 0 then take (nat (int (length xs) + e)) xs else take (nat e) xs)"

text \<open>
  \<open>parseInt(req.query.limit) || 5\<close>: the argument is what \<open>parseInt\<close> returns, \<open>None\<close>
  for NaN (no parameter, or no leading integer).
\<close>

definition limit_of :: "int option \<Rightarrow> int" where
  "limit_of parsed = (case parsed of None \<Rightarrow> 5 | Some n \<Rightarrow> if n = 0 then 5 else n)"

definition is_unseen :: "session_question \<Rightarrow> bool" where
  "is_unseen q = (status q = unseen)"

definition mark_shown :: "session_question \<Rightarrow> session_question" where
  "mark_shown q = q\<lparr> status := shown \<rparr>"

text \<open>
  \<open>unseenQuestions.forEach(q => q.status = 'shown')\<close> on the first \<open>k\<close> unseen objects
  of an array: the array holds the same objects, so these are marked in place.
\<close>

fun mark_first :: "nat \<Rightarrow> session_question list \<Rightarrow> session_question list" where
  "mark_first 0 qs = qs"
| "mark_first (Suc k) [] = []"
| "mark_first (Suc k) (q # qs) =
     (if is_unseen q then mark_shown q # mark_first k qs else q # mark_first (Suc k) qs)"

text \<open>\<open>updateOne\<close> changes the first document that matches.\<close>

fun update_one :: "('a \<Rightarrow> bool) \<Rightarrow> ('a \<Rightarrow> 'a) \<Rightarrow> 'a list \<Rightarrow> 'a list" where
  "update_one P f [] = []"
| "update_one P f (x # xs) = (if P x then f x # xs else x # update_one P f xs)"

text \<open>The positional update with \<open>arrayFilters: [{ 'elem._id': { $in: questionIds } }]\<close>.\<close>

definition mark_ids :: "int \<Rightarrow> nat list \<Rightarrow> question_batch \<Rightarrow> question_batch" where
  "mark_ids now ids b =
     b\<lparr> questions :=
          map (\<lambda>q. if q_id q \<in> set ids then q\<lparr> status := shown, seenAt := Some now \<rparr> else q)
            (questions b) \<rparr>"

text \<open>
  \<open>questions.map((q, idx) => ({ _id: new ObjectId(), ...q, status: 'unseen', index: idx + base }))\<close>
\<close>

definition new_questions :: "nat \<Rightarrow> int \<Rightarrow> payload list \<Rightarrow> session_question list" where
  "new_questions oid base ps =
     map (\<lambda>(i, p). \<lparr> question = question p, options = options p,
                      correctAnswer = correctAnswer p, explanation = explanation p,
                      q_id = oid + i, status = unseen, index = int i + base, seenAt = None \<rparr>)
       (enumerate 0 ps)"

definition topics_of :: "payload list \<Rightarrow> string list" where
  "topics_of ps = map (\<lambda>p. take 30 (question p)) (take 5 ps)"

fun join_texts :: "string list \<Rightarrow> string" where
  "join_texts [] = []"
| "join_texts [t] = t"
| "join_texts (t # ts) = t @ [CHR 0x0A, CHR 0x0A] @ join_texts ts"

fun digits :: "nat \<Rightarrow> string" where
  "digits n = (if n < 10 then [char_of (48 + n)] else digits (n div 10) @ [char_of (48 + n mod 10)])"

text \<open>
  \<open>POST /api/sessions\<close>: the session document, the first batch, the session's totals
  and the cache entry; the answer carries the first five questions, none marked.
\<close>

definition create_session ::
    "int \<Rightarrow> payload list option \<Rightarrow> nat \<Rightarrow> nat list \<Rightarrow> string \<Rightarrow> server
      \<Rightarrow> (nat + nat \<times> session_question list) \<times> server" where
  "create_session now gen uid fileIds topic s =
     (let fs = filter (\<lambda>f. file_id f \<in> set fileIds \<and> file_userId f = uid) (files s)
      in if fs = [] then (Inl 404, s)
         else
           let summary = take 800 (join_texts (map textContent fs));
               sid = next_oid s;
               session = \<lparr> userId = uid,
                   topicKey = (if topic = [] then ''study_'' @ digits (nat now) else topic),
                   sourceFileIds = fileIds, contextSummary = summary, currentBatch = 1,
                   totalGenerated = 0, previousTopics = [], createdAt = now, updatedAt = now \<rparr>;
               s1 = s\<lparr> study_sessions := (study_sessions s)(sid \<mapsto> session),
                       next_oid := sid + 1 \<rparr>
           in case gen of
                None \<Rightarrow> (Inl 500, s1)
              | Some ps \<Rightarrow>
                  let qs = new_questions (sid + 1) 0 ps;
                      batch = \<lparr> batch_id = sid + 1 + length ps, sessionId = sid, batchNumber = 1,
                                questions = qs, batch_createdAt = now \<rparr>
                  in (Inr (sid, take 5 qs),
                      s1\<lparr> question_batches := question_batches s1 @ [batch],
                          study_sessions := (study_sessions s1)(sid \<mapsto>
                             session\<lparr> totalGenerated := 20,
                                      previousTopics := previousTopics session @ topics_of ps \<rparr>),
                          questionSessionCache := (questionSessionCache s1)(sid \<mapsto>
                             \<lparr> cached_contextSummary = summary,
                               cached_topicKey = topicKey session,
                               cached_questions = qs \<rparr>),
                          next_oid := sid + 2 + length ps \<rparr>))"

text \<open>
  \<open>GET /api/sessions/:id/next\<close> past the cache: the first stored batch of the session
  with an unseen question, or else a new batch from the generator.
\<close>

definition next_from_database ::
    "int \<Rightarrow> payload list option \<Rightarrow> nat \<Rightarrow> int \<Rightarrow> server \<Rightarrow> (nat + next_response) \<times> server" where
  "next_from_database now gen sid limit s =
     (case find (\<lambda>b. sessionId b = sid \<and> list_ex is_unseen (questions b)) (question_batches s) of
        None \<Rightarrow>
          (case study_sessions s sid of
             None \<Rightarrow> (Inl 404, s)
           | Some session \<Rightarrow>
               (case gen of
                  None \<Rightarrow> (Inl 500, s)
                | Some ps \<Rightarrow>
                    let qs = new_questions (next_oid s) (totalGenerated session) ps;
                        newBatch = \<lparr> batch_id = next_oid s + length ps, sessionId = sid,
                                     batchNumber = currentBatch session + 1, questions = qs,
                                     batch_createdAt = now \<rparr>;
                        returnQuestions = js_slice0 limit qs
                    in (Inr \<lparr> resp_questions = map mark_shown returnQuestions,
                              remaining = 20 - limit,
                              newBatchGenerated = True, needsNewBatch = False \<rparr>,
                        s\<lparr> question_batches := question_batches s @ [newBatch],
                           study_sessions := (study_sessions s)(sid \<mapsto>
                             session\<lparr> currentBatch := currentBatch session + 1,
                                      totalGenerated := totalGenerated session + 20,
                                      updatedAt := now,
                                      previousTopics := previousTopics session @ topics_of ps \<rparr>),
                           questionSessionCache := (questionSessionCache s)(sid \<mapsto>
                             \<lparr> cached_contextSummary = contextSummary session,
                               cached_topicKey = topicKey session,
                               cached_questions =
                                 map mark_shown returnQuestions @ drop (length returnQuestions) qs \<rparr>),
                           next_oid := next_oid s + length ps + 1 \<rparr>)))
      | Some batch \<Rightarrow>
          let unseenQuestions = js_slice0 limit (filter is_unseen (questions batch))
          in if unseenQuestions = []
             then (Inr \<lparr> resp_questions = [], remaining = 0,
                         newBatchGenerated = False, needsNewBatch = True \<rparr>, s)
             else (Inr \<lparr> resp_questions = unseenQuestions,
                         remaining = int (length (filter is_unseen (questions batch)))
                                     - int (length unseenQuestions),
                         newBatchGenerated = False, needsNewBatch = False \<rparr>,
                   s\<lparr> question_batches :=
                        update_one (\<lambda>b. batch_id b = batch_id batch)
                          (mark_ids now (map q_id unseenQuestions)) (question_batches s) \<rparr>))"

text \<open>
  The whole handler: unseen questions of the cache entry are marked in the cache and
  returned; only without them is the database read.
\<close>

definition next_questions ::
    "int \<Rightarrow> payload list option \<Rightarrow> nat \<Rightarrow> int option \<Rightarrow> server \<Rightarrow> (nat + next_response) \<times> server" where
  "next_questions now gen sid parsed s =
     (let limit = limit_of parsed
      in case questionSessionCache s sid of
           None \<Rightarrow> next_from_database now gen sid limit s
         | Some cached \<Rightarrow>
             let unseenQuestions = js_slice0 limit (filter is_unseen (cached_questions cached))
             in if unseenQuestions = [] then next_from_database now gen sid limit s
                else
                  let marked = mark_first (length unseenQuestions) (cached_questions cached)
                  in (Inr \<lparr> resp_questions = map mark_shown unseenQuestions,
                            remaining = int (length (filter is_unseen marked))
                                        - int (length unseenQuestions),
                            newBatchGenerated = False, needsNewBatch = False \<rparr>,
                      s\<lparr> questionSessionCache :=
                           (questionSessionCache s)(sid \<mapsto> cached\<lparr> cached_questions := marked \<rparr>) \<rparr>))"

section \<open>Request coalescing and the content cache\<close>

text \<open>
  \<open>POST /api/generate\<close> from \<open>generateRequestKey\<close> on. The server runs on one event
  loop: the code between two \<open>await\<close>s runs without interruption, so a run of the
  server is a sequence of such segments, here events:

  \<^item> \<open>Arrive dt r k\<close>: request \<open>r\<close> with fingerprint \<open>k\<close> reaches the check of
    \<open>inflightRequests\<close>. It joins the promise stored there; or it is answered from a
    cache entry younger than 300000 ms; or it starts the generation, stores its
    promise under \<open>k\<close> and awaits it (the body of the promise runs up to its first
    \<open>await\<close> inside this segment).
  \<^item> \<open>Settle dt p out\<close>: the generation behind promise \<open>p\<close> ends. A fulfilled one has
    just written the cache entry with the current time. Every handler awaiting \<open>p\<close>
    resumes before any other segment runs: each answers with the outcome, and the
    one that started \<open>p\<close> deletes its key from \<open>inflightRequests\<close> in \<open>finally\<close>.
  \<^item> \<open>Sweep dt\<close>: the \<open>setInterval\<close> callback; the timer does not fire before
    600000 ms have passed since it last fired.

  \<open>dt\<close> is the time in ms since the previous event (\<open>Date.now()\<close> does not go back).
  The fingerprint is used by equality only. \<open>produced\<close> logs every start of a
  generation; \<open>replies\<close> logs every answer sent.
\<close>

type_synonym fingerprint = string

type_synonym response_data = nat

datatype outcome = Fulfilled response_data | Rejected string

datatype reply = Json response_data | Error500 string

datatype event = Arrive nat nat fingerprint | Settle nat nat outcome | Sweep nat

record coordinator =
  inflightRequests :: "fingerprint \<rightharpoonup> nat"
  contentCache :: "fingerprint \<rightharpoonup> response_data \<times> int"
  running :: "(nat \<times> fingerprint) list"
  awaiting :: "(nat \<times> nat) list"
  replies :: "(nat \<times> reply) list"
  produced :: "(fingerprint \<times> nat) list"
  next_promise :: nat
  clock :: int
  last_sweep :: int

definition init :: coordinator where
  "init = \<lparr> inflightRequests = Map.empty, contentCache = Map.empty, running = [],
            awaiting = [], replies = [], produced = [], next_promise = 0, clock = 0,
            last_sweep = 0 \<rparr>"

text \<open>\<open>cachedResult && Date.now() - cachedResult.timestamp < 300000\<close>\<close>

definition fresh :: "(response_data \<times> int) option \<Rightarrow> int \<Rightarrow> bool" where
  "fresh entry now = (case entry of None \<Rightarrow> False | Some (d, ts) \<Rightarrow> now - ts < 300000)"

definition reply_of :: "outcome \<Rightarrow> reply" where
  "reply_of out =
     (case out of
        Fulfilled d \<Rightarrow> Json d
      | Rejected msg \<Rightarrow> Error500 (''Content generation failed: '' @ msg))"

definition tick :: "nat \<Rightarrow> coordinator \<Rightarrow> coordinator" where
  "tick dt s = s\<lparr> clock := clock s + int dt \<rparr>"

definition start_generation :: "nat \<Rightarrow> fingerprint \<Rightarrow> coordinator \<Rightarrow> coordinator" where
  "start_generation r k s =
     s\<lparr> running := running s @ [(next_promise s, k)],
        produced := produced s @ [(k, next_promise s)],
        inflightRequests := (inflightRequests s)(k \<mapsto> next_promise s),
        awaiting := awaiting s @ [(r, next_promise s)],
        next_promise := next_promise s + 1 \<rparr>"

definition arrive :: "nat \<Rightarrow> fingerprint \<Rightarrow> coordinator \<Rightarrow> coordinator" where
  "arrive r k s =
     (case inflightRequests s k of
        Some p \<Rightarrow> s\<lparr> awaiting := awaiting s @ [(r, p)] \<rparr>
      | None \<Rightarrow>
          (case contentCache s k of
             None \<Rightarrow> start_generation r k s
           | Some (d, ts) \<Rightarrow>
               if clock s - ts < 300000 then s\<lparr> replies := replies s @ [(r, Json d)] \<rparr>
               else start_generation r k s))"

definition settle :: "nat \<Rightarrow> outcome \<Rightarrow> coordinator \<Rightarrow> coordinator" where
  "settle p out s =
     (case map_of (running s) p of
        None \<Rightarrow> s
      | Some k \<Rightarrow>
          s\<lparr> contentCache :=
               (case out of
                  Fulfilled d \<Rightarrow> (contentCache s)(k \<mapsto> (d, clock s))
                | Rejected msg \<Rightarrow> contentCache s),
             running := filter (\<lambda>(p', k'). p' \<noteq> p) (running s),
             replies := replies s @
               map (\<lambda>(r, p'). (r, reply_of out)) (filter (\<lambda>(r, p'). p' = p) (awaiting s)),
             awaiting := filter (\<lambda>(r, p'). p' \<noteq> p) (awaiting s),
             inflightRequests := (inflightRequests s)(k := None) \<rparr>)"

definition sweep :: "coordinator \<Rightarrow> coordinator" where
  "sweep s =
     (if 600000 \<le> clock s - last_sweep s
      then s\<lparr> contentCache :=
                (\<lambda>k. case contentCache s k of
                        None \<Rightarrow> None
                      | Some (d, ts) \<Rightarrow> if 300000 < clock s - ts then None else Some (d, ts)),
              last_sweep := clock s \<rparr>
      else s)"

fun step :: "event \<Rightarrow> coordinator \<Rightarrow> coordinator" where
  "step (Arrive dt r k) s = arrive r k (tick dt s)"
| "step (Settle dt p out) s = settle p out (tick dt s)"
| "step (Sweep dt) s = sweep (tick dt s)"

fun run :: "event list \<Rightarrow> coordinator \<Rightarrow> coordinator" where
  "run [] s = s"
| "run (e # es) s = run es (step e s)"

text \<open>The requests with fingerprint \<open>k\<close> in a sequence of events, and whether promise \<open>p\<close> settles in it.\<close>

fun arrivals :: "fingerprint \<Rightarrow> event list \<Rightarrow> nat list" where
  "arrivals k [] = []"
| "arrivals k (Arrive dt r k' # es) = (if k' = k then r # arrivals k es else arrivals k es)"
| "arrivals k (e # es) = arrivals k es"

fun settles :: "nat \<Rightarrow> event list \<Rightarrow> bool" where
  "settles p [] = False"
| "settles p (Settle dt p' out # es) = (p' = p \<or> settles p es)"
| "settles p (e # es) = settles p es"

definition produced_for :: "fingerprint \<Rightarrow> coordinator \<Rightarrow> nat list" where
  "produced_for k s = map snd (filter (\<lambda>(k', p). k' = k) (produced s))"

subsection \<open>The generation promise\<close>

text \<open>
  The body of \<open>generationPromise\<close>, the async function that a request starts when it
  neither joins a promise nor is served from the cache. The mode selects the tasks,
  each a call of \<open>generateStudyContent\<close> for one content type, stored with the key
  under which its result goes into \<open>content\<close> (the key equals the type in every
  task). \<open>generateStudyContent\<close> is the environment: for a content type it returns
  the generated data, or throws an \<open>Error\<close> with a message (\<open>Inl\<close>). The outcome
  of an event \<open>Settle dt p out\<close> comes from here:
  \<open>out = outcome_of (generationPromise mode gen inserted)\<close>.
\<close>

type_synonym generator = "string \<Rightarrow> string + string"

definition tasks_of :: "string \<Rightarrow> string list" where
  "tasks_of mode =
     (if mode = ''comprehensive'' then [''summary'', ''studyPlan'', ''questions'', ''flashcards'']
      else (if mode = ''summary'' then [''summary''] else []) @
           (if mode = ''practice'' \<or> mode = ''questions'' then [''questions''] else []) @
           (if mode = ''flashcards'' then [''flashcards''] else []) @
           (if mode = ''gaps'' then [''knowledgeGaps''] else []) @
           (if mode = ''summary'' then [''studyPlan''] else []))"

text \<open>
  \<open>Promise.allSettled\<close> never rejects: it gives one result for each task, fulfilled or
  rejected.
\<close>

definition allSettled :: "string list \<Rightarrow> generator \<Rightarrow> (string \<times> (string + string)) list" where
  "allSettled tasks gen = map (\<lambda>key. (key, gen key)) tasks"

text \<open>
  The loop over the results: \<open>content[key] = data\<close> for a fulfilled one; a rejected one
  is logged, and the loop goes on (``continue with partial results rather than
  failing completely'').
\<close>

fun collect :: "(string \<times> (string + string)) list \<Rightarrow> (string \<times> string) list" where
  "collect [] = []"
| "collect ((key, Inr data) # results) = (key, data) # collect results"
| "collect ((key, Inl msg) # results) = collect results"

text \<open>
  The response that the promise fulfils with, \<open>{ sessionId: dbResult.insertedId,
  content }\<close>. The generated data is opaque, so the unwrapping of
  \<open>content.flashcards.flashcards\<close> and \<open>content.studyPlan.studyPlan\<close>, which changes the
  shape of the data and cannot throw, is not shown.
\<close>

record generated =
  gen_sessionId :: nat
  gen_content :: "(string \<times> string) list"

text \<open>
  \<open>inserted\<close> is what \<open>insertOne\<close> on \<open>studySessions\<close> does: it throws (\<open>Inl\<close>), or returns
  the id of the new session. The \<open>catch\<close> of the body rethrows, so the promise rejects
  with the error of \<open>insertOne\<close>; no other statement between \<open>try\<close> and \<open>catch\<close> throws.
\<close>

definition generationPromise :: "string \<Rightarrow> generator \<Rightarrow> string + nat \<Rightarrow> string + generated" where
  "generationPromise mode gen inserted =
     (let content = collect (allSettled (tasks_of mode) gen)
      in case inserted of
           Inl msg \<Rightarrow> Inl msg
         | Inr oid \<Rightarrow> Inr \<lparr> gen_sessionId = oid, gen_content = content \<rparr>)"

text \<open>
  The outcome of the promise as the coordinator sees it. A response is identified by
  the id of its session, which \<open>insertOne\<close> gives to no other session.
\<close>

definition outcome_of :: "string + generated \<Rightarrow> outcome" where
  "outcome_of res = (case res of Inl msg \<Rightarrow> Rejected msg | Inr a \<Rightarrow> Fulfilled (gen_sessionId a))"

section \<open>A sample run\<close>

text \<open>
  A server with one uploaded file of user 1, and a generator answer of twenty
  questions, as the schema of the generator demands.
\<close>

definition sample_questions :: "payload list" where
  "sample_questions =
     map (\<lambda>i. \<lparr> question = ''Question '' @ digits i, options = [''A'', ''B'', ''C'', ''D''],
                 correctAnswer = ''A'', explanation = ''See the text.'' \<rparr>) [1..<21]"

definition sample_server :: server where
  "sample_server =
     \<lparr> questionSessionCache = Map.empty, question_batches = [], study_sessions = Map.empty,
       files = [\<lparr> file_id = 1, file_userId = 1, textContent = ''Cells divide by mitosis.'' \<rparr>],
       next_oid = 100 \<rparr>"

text \<open>The session that user 1 creates there, and that session after twenty questions were asked for twice.\<close>

definition sample_session :: server where
  "sample_session =
     snd (create_session 1000 (Some sample_questions) 1 [1] ''biology'' sample_server)"

definition spent_session :: server where
  "spent_session =
     snd (next_questions 3000 None 100 (Some 20)
       (snd (next_questions 2000 None 100 (Some 20) sample_session)))"

text \<open>A card store with one new card, number 3, of user 7.\<close>

definition sample_cards :: review_db where
  "sample_cards = \<lparr> flashcards = [3 \<mapsto> new_card 7], cardsReviewed = [7 \<mapsto> 0] \<rparr>"

text \<open>The ids of the questions in an answer of \<open>next_questions\<close>; none in an error.\<close>

definition delivered :: "(nat + next_response) \<times> server \<Rightarrow> nat list" where
  "delivered r = (case fst r of Inl e \<Rightarrow> [] | Inr a \<Rightarrow> map q_id (resp_questions a))"

text \<open>
  A session is exhausted when neither its cache entry nor any of its stored batches
  holds an unseen question.
\<close>

definition exhausted :: "nat \<Rightarrow> server \<Rightarrow> bool" where
  "exhausted sid s =
     ((case questionSessionCache s sid of
         None \<Rightarrow> True
       | Some cached \<Rightarrow> filter is_unseen (cached_questions cached) = []) \<and>
      find (\<lambda>b. sessionId b = sid \<and> list_ex is_unseen (questions b)) (question_batches s) = None)"

text \<open>Two fingerprints as \<open>generateRequestKey\<close> builds them, for a summary and for flashcards.\<close>

definition sample_key :: fingerprint where
  "sample_key = ''7:['' @ [CHR 0x22] @ ''64f1c0'' @ [CHR 0x22] @ '']:summary:1200''"

definition other_key :: fingerprint where
  "other_key = ''7:['' @ [CHR 0x22] @ ''64f1c0'' @ [CHR 0x22] @ '']:flashcards:1200''"

text \<open>A generator whose every call fails.\<close>

definition failing_generator :: generator where
  "failing_generator type = Inl (''Failed to generate '' @ type @ '': Connection error.'')"

section \<open>Predicates of the proofs\<close>

text \<open>A stored card of user \<open>u\<close> whose ease factor and interval are within their bounds.\<close>

definition card_ok :: "nat \<Rightarrow> flashcard \<Rightarrow> bool" where
  "card_ok u doc \<longleftrightarrow> card_userId doc = u \<and>
     (\<exists>ef. card_easeFactor doc = Some ef \<and> js_ge ef (lit (13 / 10))) \<and>
     (\<exists>ivl. card_interval doc = Some ivl \<and> js_ge ivl (Num 1))"

text \<open>The requests that await promise \<open>p\<close>, in the order in which they joined it.\<close>

definition joined :: "nat \<Rightarrow> coordinator \<Rightarrow> nat list" where
  "joined p s = map fst (filter (\<lambda>(r, p'). p' = p) (awaiting s))"

text \<open>
  What every state of the coordinator satisfies: \<open>inflightRequests\<close> holds exactly the
  running generations, promises are numbered below \<open>next_promise\<close>, and no key in
  flight has a fresh cache entry.
\<close>

definition coord_inv :: "coordinator \<Rightarrow> bool" where
  "coord_inv s \<longleftrightarrow>
     (\<forall>p k. (p, k) \<in> set (running s) \<longrightarrow> inflightRequests s k = Some p) \<and>
     (\<forall>k p. inflightRequests s k = Some p \<longrightarrow> (p, k) \<in> set (running s)) \<and>
     (\<forall>p k. (p, k) \<in> set (running s) \<longrightarrow> p < next_promise s) \<and>
     (\<forall>r p. (r, p) \<in> set (awaiting s) \<longrightarrow> p < next_promise s) \<and>
     distinct (map fst (running s)) \<and>
     (\<forall>k p. inflightRequests s k = Some p \<longrightarrow> \<not> fresh (contentCache s k) (clock s))"

section \<open>Rounding to binary64, evaluated\<close>

text \<open>
  A rounding is evaluated from its exponent \<open>e\<close> and integer significand \<open>m\<close>: the
  definitions are unfolded by the simplifier at these two values.
\<close>

lemma to_double_step:
  assumes "x \<noteq> 0" and "ilog2 \<bar>x\<bar> = e" and "- 1022 \<le> e"
    and "round_half_even (\<bar>x\<bar> / pow2 (e - 52)) = m"
    and "of_int m * pow2 (e - 52) < pow2 1024"
  shows "to_double x = Num (if 0 < x then of_int m * pow2 (e - 52) else - (of_int m * pow2 (e - 52)))"
proof -
  have e: "max (ilog2 \<bar>x\<bar>) (- 1022) = e" using assms(2,3) by simp
  show ?thesis
    unfolding to_double_def Let_def e assms(4)
    using assms(1,5) by simp
qed

lemma to_double_zero: "to_double 0 = Num 0"
  by (simp add: to_double_def)

lemma to_double_neg: "to_double (- x) = js_neg (to_double x)"
  by (simp add: to_double_def Let_def)

lemmas td_eval = ilog2_def compute_bitlen round_half_even_def pow2_def Let_def


text \<open>The roundings that the scheduler performs on the inputs used below.\<close>

lemma td_0: "to_double 5 = Num 5"
  by (rule to_double_step [where e = "2" and m = 5629499534213120, THEN trans]) (simp_all add: td_eval)

lemma td_1: "to_double (1 / 10) = Num (3602879701896397 / 36028797018963968)"
  by (rule to_double_step [where e = "- 4" and m = 7205759403792794, THEN trans]) (simp_all add: td_eval)

lemma td_2: "to_double (2 / 25) = Num (5764607523034235 / 72057594037927936)"
  by (rule to_double_step [where e = "- 4" and m = 5764607523034235, THEN trans]) (simp_all add: td_eval)

lemma td_3: "to_double (1 / 50) = Num (5764607523034235 / 288230376151711744)"
  by (rule to_double_step [where e = "- 6" and m = 5764607523034235, THEN trans]) (simp_all add: td_eval)

lemma td_4: "to_double (28823037615171175 / 288230376151711744) = Num (3602879701896397 / 36028797018963968)"
  by (rule to_double_step [where e = "- 4" and m = 7205759403792794, THEN trans]) (simp_all add: td_eval)

lemma td_5: "to_double (12970366926827029 / 72057594037927936) = Num (3242591731706757 / 18014398509481984)"
  by (rule to_double_step [where e = "- 3" and m = 6485183463413514, THEN trans]) (simp_all add: td_eval)

lemma td_6: "to_double (16212958658533785 / 18014398509481984) = Num (2026619832316723 / 2251799813685248)"
  by (rule to_double_step [where e = "- 1" and m = 8106479329266892, THEN trans]) (simp_all add: td_eval)

lemma td_7: "to_double (28823037615171171 / 36028797018963968) = Num (7205759403792793 / 9007199254740992)"
  by (rule to_double_step [where e = "- 1" and m = 7205759403792793, THEN trans]) (simp_all add: td_eval)

lemma td_8: "to_double 4 = Num 4"
  by (rule to_double_step [where e = "2" and m = 4503599627370496, THEN trans]) (simp_all add: td_eval)

lemma td_9: "to_double (5764607523034235 / 72057594037927936) = Num (5764607523034235 / 72057594037927936)"
  by (rule to_double_step [where e = "- 4" and m = 5764607523034235, THEN trans]) (simp_all add: td_eval)

lemma td_10: "to_double (5764607523034235 / 36028797018963968) = Num (5764607523034235 / 36028797018963968)"
  by (rule to_double_step [where e = "- 3" and m = 5764607523034235, THEN trans]) (simp_all add: td_eval)

lemma td_11: "to_double (5764607523034235 / 9007199254740992) = Num (5764607523034235 / 9007199254740992)"
  by (rule to_double_step [where e = "- 1" and m = 5764607523034235, THEN trans]) (simp_all add: td_eval)

lemma td_12: "to_double (19455550390240543 / 36028797018963968) = Num (607985949695017 / 1125899906842624)"
  by (rule to_double_step [where e = "- 1" and m = 4863887597560136, THEN trans]) (simp_all add: td_eval)

lemma td_13: "to_double 3 = Num 3"
  by (rule to_double_step [where e = "1" and m = 6755399441055744, THEN trans]) (simp_all add: td_eval)

lemma td_14: "to_double (17293822569102705 / 288230376151711744) = Num (1080863910568919 / 18014398509481984)"
  by (rule to_double_step [where e = "- 5" and m = 8646911284551352, THEN trans]) (simp_all add: td_eval)

lemma td_15: "to_double (10088063165309911 / 72057594037927936) = Num (1261007895663739 / 9007199254740992)"
  by (rule to_double_step [where e = "- 3" and m = 5044031582654956, THEN trans]) (simp_all add: td_eval)

lemma td_16: "to_double (3783023686991217 / 9007199254740992) = Num (3783023686991217 / 9007199254740992)"
  by (rule to_double_step [where e = "- 2" and m = 7566047373982434, THEN trans]) (simp_all add: td_eval)

lemma td_17: "to_double (11529215046068471 / 36028797018963968) = Num (1441151880758559 / 4503599627370496)"
  by (rule to_double_step [where e = "- 2" and m = 5764607523034236, THEN trans]) (simp_all add: td_eval)

lemma td_18: "to_double 2 = Num 2"
  by (rule to_double_step [where e = "1" and m = 4503599627370496, THEN trans]) (simp_all add: td_eval)

lemma td_19: "to_double (5764607523034235 / 144115188075855872) = Num (5764607523034235 / 144115188075855872)"
  by (rule to_double_step [where e = "- 5" and m = 5764607523034235, THEN trans]) (simp_all add: td_eval)

lemma td_20: "to_double (17293822569102705 / 144115188075855872) = Num (1080863910568919 / 9007199254740992)"
  by (rule to_double_step [where e = "- 4" and m = 8646911284551352, THEN trans]) (simp_all add: td_eval)

lemma td_21: "to_double (1080863910568919 / 4503599627370496) = Num (1080863910568919 / 4503599627370496)"
  by (rule to_double_step [where e = "- 3" and m = 8646911284551352, THEN trans]) (simp_all add: td_eval)

lemma td_22: "to_double (5044031582654955 / 36028797018963968) = Num (5044031582654955 / 36028797018963968)"
  by (rule to_double_step [where e = "- 3" and m = 5044031582654955, THEN trans]) (simp_all add: td_eval)

lemma td_23: "to_double 1 = Num 1"
  by (rule to_double_step [where e = "0" and m = 4503599627370496, THEN trans]) (simp_all add: td_eval)

lemma td_24: "to_double (5764607523034235 / 288230376151711744) = Num (5764607523034235 / 288230376151711744)"
  by (rule to_double_step [where e = "- 6" and m = 5764607523034235, THEN trans]) (simp_all add: td_eval)

lemma td_25: "to_double (3602879701896397 / 36028797018963968) = Num (3602879701896397 / 36028797018963968)"
  by (rule to_double_step [where e = "- 4" and m = 7205759403792794, THEN trans]) (simp_all add: td_eval)

lemma td_26: "to_double (5 / 2) = Num (5 / 2)"
  by (rule to_double_step [where e = "1" and m = 5629499534213120, THEN trans]) (simp_all add: td_eval)

lemma td_27: "to_double (93674872249306317 / 36028797018963968) = Num (5854679515581645 / 2251799813685248)"
  by (rule to_double_step [where e = "1" and m = 5854679515581645, THEN trans]) (simp_all add: td_eval)

lemma td_28: "to_double (13 / 10) = Num (5854679515581645 / 4503599627370496)"
  by (rule to_double_step [where e = "0" and m = 5854679515581645, THEN trans]) (simp_all add: td_eval)

lemma td_29: "to_double (13 / 5) = Num (5854679515581645 / 2251799813685248)"
  by (rule to_double_step [where e = "1" and m = 5854679515581645, THEN trans]) (simp_all add: td_eval)

lemma td_30: "to_double (97277751951202717 / 36028797018963968) = Num (3039929748475085 / 1125899906842624)"
  by (rule to_double_step [where e = "1" and m = 6079859496950170, THEN trans]) (simp_all add: td_eval)

lemma td_31: "to_double (27 / 10) = Num (3039929748475085 / 1125899906842624)"
  by (rule to_double_step [where e = "1" and m = 6079859496950170, THEN trans]) (simp_all add: td_eval)

lemma td_32: "to_double (9119789245425255 / 562949953421312) = Num (1139973655678157 / 70368744177664)"
  by (rule to_double_step [where e = "4" and m = 4559894622712628, THEN trans]) (simp_all add: td_eval)

lemma td_33: "to_double (10718567113141781 / 4503599627370496) = Num (2679641778285445 / 1125899906842624)"
  by (rule to_double_step [where e = "1" and m = 5359283556570890, THEN trans]) (simp_all add: td_eval)

lemma td_34: "to_double (119 / 50) = Num (2679641778285445 / 1125899906842624)"
  by (rule to_double_step [where e = "1" and m = 5359283556570890, THEN trans]) (simp_all add: td_eval)

lemma td_35: "to_double (100880631653099117 / 36028797018963968) = Num (6305039478318695 / 2251799813685248)"
  by (rule to_double_step [where e = "1" and m = 6305039478318695, THEN trans]) (simp_all add: td_eval)

lemma td_36: "to_double (11168927075878831 / 4503599627370496) = Num (698057942242427 / 281474976710656)"
  by (rule to_double_step [where e = "1" and m = 5584463537939416, THEN trans]) (simp_all add: td_eval)

lemma td_37: "to_double (62 / 25) = Num (5584463537939415 / 2251799813685248)"
  by (rule to_double_step [where e = "1" and m = 5584463537939415, THEN trans]) (simp_all add: td_eval)

lemma td_38: "to_double (48278588005411717 / 18014398509481984) = Num (6034823500676465 / 2251799813685248)"
  by (rule to_double_step [where e = "1" and m = 6034823500676465, THEN trans]) (simp_all add: td_eval)

lemmas td_facts = td_0 td_1 td_2 td_3 td_4 td_5 td_6 td_7 td_8 td_9 td_10 td_11 td_12 td_13 td_14 td_15 td_16 td_17 td_18 td_19 td_20 td_21 td_22 td_23 td_24 td_25 td_26 td_27 td_28 td_29 td_30 td_31 td_32 td_33 td_34 td_35 td_36 td_37 td_38


lemmas js_eval = ease_delta_def js_sub_def js_mul_def lit_def to_double_zero to_double_neg
  js_strict_eq_def Math_max_def td_facts

lemma ease_delta_values:
  "ease_delta (Num 0) = Num (- (7205759403792793 / 9007199254740992))"
  "ease_delta (Num 1) = Num (- (607985949695017 / 1125899906842624))"
  "ease_delta (Num 2) = Num (- (1441151880758559 / 4503599627370496))"
  "ease_delta (Num 3) = Num (- (5044031582654955 / 36028797018963968))"
  "ease_delta (Num 4) = Num 0"
  "ease_delta (Num 5) = Num (3602879701896397 / 36028797018963968)"
  by (simp_all add: js_eval)

lemma pow2_pos: "0 < pow2 k"
  by (simp add: pow2_def)

lemma pow2_add: "pow2 (a + b) = pow2 a * pow2 b"
proof -
  have "pow2 k = 2 powi k" for k
    by (simp add: pow2_def power_int_def field_simps)
  then show ?thesis by (simp add: power_int_add)
qed

text \<open>
  The exponent is the binary one, and a finite result of the rounding is a multiple of
  the spacing at most half a spacing away from the exact value.
\<close>

lemma pow2_nat: "0 \<le> k \<Longrightarrow> pow2 k = of_int (2 ^ nat k)"
  by (simp add: pow2_def)

lemma pow2_neg: "pow2 (- k) = 1 / pow2 k"
  by (cases "k = 0") (auto simp: pow2_def)

lemma ilog2_bounds:
  assumes "0 < a"
  shows "pow2 (ilog2 a) \<le> a \<and> a < pow2 (ilog2 a + 1)"
proof (cases "1 \<le> a")
  case True
  define n where "n = \<lfloor>a\<rfloor>"
  have n: "0 < n" using True by (simp add: n_def)
  have b1: "1 \<le> bitlen n" using n by (simp add: bitlen_alt_def)
  have e: "ilog2 a = bitlen n - 1" using True by (simp add: ilog2_def n_def)
  from bitlen_bounds[OF n] have lo: "(2::int) ^ nat (bitlen n - 1) \<le> n" and hi: "n < 2 ^ nat (bitlen n)"
    by simp_all
  have "pow2 (bitlen n - 1) = of_int (2 ^ nat (bitlen n - 1))" using b1 by (simp add: pow2_nat)
  also have "\<dots> \<le> of_int n" using lo by (simp only: of_int_le_iff)
  also have "\<dots> \<le> a" by (simp add: n_def)
  finally have l: "pow2 (ilog2 a) \<le> a" by (simp add: e)
  have "n + 1 \<le> 2 ^ nat (bitlen n)" using hi by simp
  then have "(of_int (n + 1) :: real) \<le> of_int (2 ^ nat (bitlen n))" by (simp only: of_int_le_iff)
  moreover have "a < of_int (n + 1)" by (simp add: n_def)
  ultimately have "a < of_int (2 ^ nat (bitlen n))" by linarith
  also have "\<dots> = pow2 (bitlen n)" using b1 by (simp add: pow2_nat)
  finally have "a < pow2 (ilog2 a + 1)" by (simp add: e)
  with l show ?thesis by simp
next
  case False
  define c where "c = \<lceil>1 / a\<rceil>"
  define m where "m = c - 1"
  have a1: "a < 1" using False by simp
  have inv1: "1 < 1 / a" using assms a1 by simp
  have "1 < c" using inv1 by (simp add: c_def less_ceiling_iff)
  then have m: "0 < m" by (simp add: m_def)
  have b1: "1 \<le> bitlen m" using m by (simp add: bitlen_alt_def)
  have e: "ilog2 a = - bitlen m" using False by (simp add: ilog2_def c_def m_def)
  from bitlen_bounds[OF m] have lo: "(2::int) ^ nat (bitlen m - 1) \<le> m" and hi: "m < 2 ^ nat (bitlen m)"
    by simp_all
  have pb: "0 < pow2 (bitlen m)" by (simp add: pow2_pos)
  have "c \<le> 2 ^ nat (bitlen m)" using hi by (simp add: m_def)
  then have "(of_int c :: real) \<le> of_int (2 ^ nat (bitlen m))" by (simp only: of_int_le_iff)
  moreover have "1 / a \<le> of_int c" by (simp add: c_def)
  ultimately have "1 / a \<le> of_int (2 ^ nat (bitlen m))" by linarith
  also have "\<dots> = pow2 (bitlen m)" using b1 by (simp add: pow2_nat)
  finally have "1 / a \<le> pow2 (bitlen m)" .
  then have "1 \<le> pow2 (bitlen m) * a" using assms by (simp add: pos_divide_le_eq)
  then have "1 / pow2 (bitlen m) \<le> a" using pb by (simp add: pos_divide_le_eq mult.commute)
  then have l: "pow2 (ilog2 a) \<le> a" by (simp add: e pow2_neg)
  have "(of_int (2 ^ nat (bitlen m - 1)) :: real) \<le> of_int m" using lo by (simp only: of_int_le_iff)
  moreover have "of_int m < 1 / a" using less_ceiling_iff[of m "1 / a"] by (simp add: m_def c_def)
  ultimately have "(of_int (2 ^ nat (bitlen m - 1)) :: real) < 1 / a" by linarith
  moreover have "pow2 (bitlen m - 1) = of_int (2 ^ nat (bitlen m - 1))" using b1 by (simp add: pow2_nat)
  ultimately have u0: "pow2 (bitlen m - 1) < 1 / a" by simp
  have pb': "0 < pow2 (bitlen m - 1)" by (simp add: pow2_pos)
  from u0 have "pow2 (bitlen m - 1) * a < 1" using assms by (simp add: pos_less_divide_eq)
  then have "a < 1 / pow2 (bitlen m - 1)" using pb' by (simp add: pos_less_divide_eq mult.commute)
  moreover have "pow2 (ilog2 a + 1) = 1 / pow2 (bitlen m - 1)"
    using pow2_neg[of "bitlen m - 1"] by (simp add: e)
  ultimately have "a < pow2 (ilog2 a + 1)" by simp
  with l show ?thesis by simp
qed


lemma round_half_even_near: "\<bar>q - of_int (round_half_even q)\<bar> \<le> 1 / 2"
proof -
  have "of_int \<lfloor>q\<rfloor> \<le> q" "q < of_int \<lfloor>q\<rfloor> + 1" by linarith+
  then show ?thesis by (auto simp: round_half_even_def Let_def)
qed

lemma to_double_near:
  assumes "0 < x" and "to_double x = Num r"
  shows "\<bar>x - r\<bar> \<le> pow2 (max (ilog2 x) (- 1022) - 52) / 2
     \<and> (\<exists>m. r = of_int m * pow2 (max (ilog2 x) (- 1022) - 52))"
proof -
  define u where "u = pow2 (max (ilog2 x) (- 1022) - 52)"
  define m where "m = round_half_even (x / u)"
  have u: "0 < u" by (simp add: u_def pow2_pos)
  have r: "r = of_int m * u"
    using assms by (simp add: to_double_def Let_def u_def m_def split: if_splits)
  have "\<bar>x / u - of_int m\<bar> \<le> 1 / 2" unfolding m_def by (rule round_half_even_near)
  then have "\<bar>x / u - of_int m\<bar> * u \<le> 1 / 2 * u" using u by (simp only: mult_le_cancel_right_pos)
  moreover have "\<bar>x / u - of_int m\<bar> * u = \<bar>x - of_int m * u\<bar>"
  proof -
    have "\<bar>x / u - of_int m\<bar> * u = \<bar>(x / u - of_int m) * u\<bar>" using u by (simp add: abs_mult)
    also have "(x / u - of_int m) * u = x - of_int m * u" using u by (simp add: field_simps)
    finally show ?thesis .
  qed
  ultimately have "\<bar>x - r\<bar> \<le> u / 2" by (simp add: r)
  then show ?thesis using r unfolding u_def by blast
qed

lemma round_half_even_ge_floor: "\<lfloor>q\<rfloor> \<le> round_half_even q"
  by (simp add: round_half_even_def Let_def)

lemma to_double_not_NaN: "to_double x \<noteq> NaN"
  by (simp add: to_double_def Let_def)

lemma to_double_ge_one:
  assumes "1 \<le> x"
  shows "to_double x = PosInf \<or> (\<exists>r. to_double x = Num r \<and> 1 \<le> r)"
proof -
  define n where "n = \<lfloor>x\<rfloor>"
  define e where "e = bitlen n - 1"
  define u where "u = pow2 (e - 52)"
  define m where "m = round_half_even (x / u)"
  have n: "0 < n" using assms by (simp add: n_def)
  have e0: "0 \<le> e" using n by (simp add: e_def bitlen_alt_def)
  have il: "ilog2 x = e" using assms by (simp add: ilog2_def e_def n_def)
  have "(2::int) ^ nat e \<le> n" using bitlen_bounds[OF n] by (simp add: e_def)
  then have "(of_int ((2::int) ^ nat e) :: real) \<le> of_int n" by (simp only: of_int_le_iff)
  also have "\<dots> \<le> x" by (simp add: n_def)
  finally have lower: "pow2 e \<le> x" using e0 by (simp add: pow2_def)
  have u: "0 < u" by (simp add: u_def pow2_pos)
  have ue: "pow2 52 * u = pow2 e" by (simp add: u_def pow2_add[symmetric])
  have "pow2 52 * u \<le> x" using lower ue by simp
  then have "pow2 52 \<le> x / u" using u by (simp add: pos_le_divide_eq)
  moreover define z :: int where "z = 2 ^ 52"
  moreover have z: "pow2 52 = of_int z" by (simp add: pow2_def z_def)
  ultimately have "of_int z \<le> x / u" by simp
  then have "z \<le> \<lfloor>x / u\<rfloor>" by (simp only: le_floor_iff)
  then have "z \<le> m" using round_half_even_ge_floor[of "x / u"] by (simp add: m_def)
  then have "pow2 52 \<le> of_int m" unfolding z by (simp only: of_int_le_iff)
  then have "pow2 52 * u \<le> of_int m * u" using u by simp
  then have "pow2 e \<le> of_int m * u" using ue by simp
  moreover have "1 \<le> pow2 e" using e0 by (simp add: pow2_def)
  ultimately have r1: "1 \<le> of_int m * u" by linarith
  have xpos: "0 < x" "x \<noteq> 0" "\<bar>x\<bar> = x" using assms by simp_all
  have mx: "max e (- 1022) = e" using e0 by simp
  have "to_double x = (if pow2 1024 \<le> of_int m * u then PosInf else Num (of_int m * u))"
    using xpos by (simp add: to_double_def Let_def il mx u_def m_def)
  then show ?thesis using r1 by auto
qed

lemma mul_round_ge_one:
  assumes "js_ge ivl (Num 1)" and "js_ge ef (lit (13 / 10))"
  shows "js_ge (Math_round (js_mul ivl ef)) (Num 1)"
proof -
  have c: "lit (13 / 10) = Num (5854679515581645 / 4503599627370496)"
    by (simp add: js_eval)
  show ?thesis
  proof (cases ivl)
    case (Num a)
    then have a: "1 \<le> a" using assms(1) by (simp add: js_ge_def)
    show ?thesis
    proof (cases ef)
      case ef: (Num b)
      then have b: "1 \<le> b" using assms(2) by (simp add: js_ge_def c)
      have "1 * 1 \<le> a * b" using a b by (intro mult_mono) simp_all
      then have "1 \<le> a * b" by simp
      from to_double_ge_one[OF this] show ?thesis
      proof
        assume "to_double (a * b) = PosInf"
        then show ?thesis by (simp add: Num ef js_mul_def js_ge_def)
      next
        assume "\<exists>r. to_double (a * b) = Num r \<and> 1 \<le> r"
        then obtain r where r: "to_double (a * b) = Num r" "1 \<le> r" by blast
        have "(1::int) \<le> \<lfloor>r + 1 / 2\<rfloor>" using r(2) by (simp add: le_floor_iff)
        then have "(1::real) \<le> of_int \<lfloor>r + 1 / 2\<rfloor>" by linarith
        then show ?thesis using r(1) by (simp add: Num ef js_mul_def js_ge_def)
      qed
    next
      case PosInf
      then show ?thesis using a by (simp add: Num js_mul_def js_ge_def)
    next
      case NegInf
      then show ?thesis using assms(2) by (simp add: js_ge_def c)
    next
      case NaN
      then show ?thesis using assms(2) by (simp add: js_ge_def)
    qed
  next
    case PosInf
    show ?thesis
    proof (cases ef)
      case (Num b)
      then have "1 \<le> b" using assms(2) by (simp add: js_ge_def c)
      then show ?thesis by (simp add: PosInf Num js_mul_def js_ge_def)
    next
      case ef: PosInf
      then show ?thesis by (simp add: PosInf js_mul_def js_ge_def)
    next
      case NegInf
      then show ?thesis using assms(2) by (simp add: js_ge_def c)
    next
      case NaN
      then show ?thesis using assms(2) by (simp add: js_ge_def)
    qed
  next
    case NegInf
    then show ?thesis using assms(1) by (simp add: js_ge_def)
  next
    case NaN
    then show ?thesis using assms(1) by (simp add: js_ge_def)
  qed
qed

lemma Math_max_ge: "v \<noteq> NaN \<Longrightarrow> js_ge (Math_max (Num c) v) (Num c)"
  by (cases v) (simp_all add: Math_max_def js_ge_def)

lemma add_finite_not_NaN: "js_ge ef (Num c) \<Longrightarrow> js_add ef (Num d) \<noteq> NaN"
  by (cases ef) (simp_all add: js_ge_def to_double_not_NaN)

lemma int_quality_cases:
  assumes "0 \<le> q" and "q \<le> 5"
  shows "q = 0 \<or> q = 1 \<or> q = 2 \<or> q = 3 \<or> q = 4 \<or> q = (5::int)"
  using assms by arith

lemma ease_delta_finite:
  assumes "0 \<le> q" and "q \<le> 5"
  shows "\<exists>d. ease_delta (Num (of_int q)) = Num d"
proof -
  have "is_num (ease_delta (Num (of_int q)))"
    using int_quality_cases[OF assms] by (auto simp: ease_delta_values)
  then show ?thesis by (cases "ease_delta (Num (of_int q))") simp_all
qed

lemma easeFactor_calc:
  "easeFactor (calculateSpacedRepetition now quality reps ef ivl) =
     Math_max (lit (13 / 10)) (js_add ef (ease_delta quality))"
  by (simp add: calculateSpacedRepetition_def ease_delta_def Let_def)

lemma interval_calc:
  "interval (calculateSpacedRepetition now quality reps ef ivl) =
     (if js_lt quality (Num 3) then Num 1
      else if js_strict_eq reps (Num 0) then Num 1
      else if js_strict_eq reps (Num 1) then Num 6
      else Math_round (js_mul ivl ef))"
  by (simp add: calculateSpacedRepetition_def Let_def)

lemma repetitions_calc:
  "repetitions (calculateSpacedRepetition now quality reps ef ivl) =
     (if js_lt quality (Num 3) then Num 0 else js_add reps (Num 1))"
  by (simp add: calculateSpacedRepetition_def Let_def)

lemma lit_13_10: "lit (13 / 10) = Num (5854679515581645 / 4503599627370496)"
  by (simp add: js_eval)

lemma calc_preserves:
  assumes "0 \<le> q" and "q \<le> 5" and "js_ge ef (lit (13 / 10))" and "js_ge ivl (Num 1)"
  shows "js_ge (easeFactor (calculateSpacedRepetition now (Num (of_int q)) reps ef ivl)) (lit (13 / 10))"
    and "js_ge (interval (calculateSpacedRepetition now (Num (of_int q)) reps ef ivl)) (Num 1)"
proof -
  obtain d where d: "ease_delta (Num (of_int q)) = Num d"
    using ease_delta_finite[OF assms(1,2)] by blast
  have "js_add ef (Num d) \<noteq> NaN"
    using assms(3) by (rule add_finite_not_NaN[of ef "5854679515581645 / 4503599627370496", unfolded lit_13_10[symmetric]])
  then show "js_ge (easeFactor (calculateSpacedRepetition now (Num (of_int q)) reps ef ivl)) (lit (13 / 10))"
    unfolding easeFactor_calc d lit_13_10 by (rule Math_max_ge)
  show "js_ge (interval (calculateSpacedRepetition now (Num (of_int q)) reps ef ivl)) (Num 1)"
    unfolding interval_calc
    using mul_round_ge_one[OF assms(4,3)] by (simp add: js_ge_def)
qed

lemma c4_1: "repetitions (calculateSpacedRepetition now (Num 5) (Num 0) (lit (25 / 10)) (Num 1)) = Num 1"
  "interval (calculateSpacedRepetition now (Num 5) (Num 0) (lit (25 / 10)) (Num 1)) = Num 1"
  "easeFactor (calculateSpacedRepetition now (Num 5) (Num 0) (lit (25 / 10)) (Num 1)) = lit (26 / 10)"
  by (simp_all add: repetitions_calc interval_calc easeFactor_calc ease_delta_values js_eval)

lemma c4_2: "repetitions (calculateSpacedRepetition now (Num 5) (Num 1) (lit (26 / 10)) (Num 1)) = Num 2"
  "interval (calculateSpacedRepetition now (Num 5) (Num 1) (lit (26 / 10)) (Num 1)) = Num 6"
  "easeFactor (calculateSpacedRepetition now (Num 5) (Num 1) (lit (26 / 10)) (Num 1)) = lit (27 / 10)"
  by (simp_all add: repetitions_calc interval_calc easeFactor_calc ease_delta_values js_eval)

lemma c4_3: "interval (calculateSpacedRepetition now (Num 5) (Num 2) (lit (27 / 10)) (Num 6)) = Math_round (js_mul (Num 6) (lit (27 / 10)))"
  "Math_round (js_mul (Num 6) (lit (27 / 10))) = Num 16"
  by (simp_all add: repetitions_calc interval_calc easeFactor_calc ease_delta_values js_eval)

lemma c4_4: "repetitions (calculateSpacedRepetition now (Num 2) (Num 2) (lit (27 / 10)) (Num 6)) = Num 0"
  "interval (calculateSpacedRepetition now (Num 2) (Num 2) (lit (27 / 10)) (Num 6)) = Num 1"
  "easeFactor (calculateSpacedRepetition now (Num 2) (Num 2) (lit (27 / 10)) (Num 6)) = lit (238 / 100)"
  by (simp_all add: repetitions_calc interval_calc easeFactor_calc ease_delta_values js_eval)


lemma js_ge_lit_nonzero:
  assumes "js_ge v (Num c)" and "0 < c"
  shows "or_default (Some v) d = v"
  using assms by (cases v) (auto simp: js_ge_def)

lemma new_card_ok: "card_ok u (new_card u)"
  by (simp add: card_ok_def new_card_def js_ge_def js_eval)

lemma review_card_ok:
  assumes "card_ok u doc" and "0 \<le> q" and "q \<le> 5"
  shows "card_ok u (review_card now (Num (of_int q)) doc)"
proof -
  from assms(1) obtain ef ivl where
    ef: "card_easeFactor doc = Some ef" "js_ge ef (lit (13 / 10))" and
    ivl: "card_interval doc = Some ivl" "js_ge ivl (Num 1)" and
    u: "card_userId doc = u"
    by (auto simp: card_ok_def)
  have d1: "or_default (Some ef) d = ef" for d
    using ef(2) unfolding lit_13_10 by (rule js_ge_lit_nonzero) simp
  have d2: "or_default (Some ivl) d = ivl" for d
    using ivl(2) by (rule js_ge_lit_nonzero) simp
  show ?thesis
    using calc_preserves[OF assms(2,3) ef(2) ivl(2)] u
    by (simp add: card_ok_def review_card_def Let_def ef(1) ivl(1) d1 d2 del: or_default.simps)
qed

lemma review_all_ok:
  assumes "flashcards db c = Some doc" and "card_ok u doc"
    and "list_all (\<lambda>(now, q). 0 \<le> q \<and> q \<le> 5) rs"
  shows "\<exists>doc'. flashcards (review_all u c (map (\<lambda>(now, q). (now, Num (of_int q))) rs) db) c = Some doc'
           \<and> card_ok u doc'"
  using assms
proof (induction rs arbitrary: db doc)
  case Nil
  then show ?case by simp
next
  case (Cons r rs)
  obtain now q where r: "r = (now, q)" by (cases r)
  from Cons.prems(3) r have q: "0 \<le> q" "q \<le> 5" and rest: "list_all (\<lambda>(now, q). 0 \<le> q \<and> q \<le> 5) rs"
    by simp_all
  let ?db = "snd (review_handler now (User u) (Some c) (Num (of_int q)) db)"
  have u: "card_userId doc = u" using Cons.prems(2) by (simp add: card_ok_def)
  have "flashcards ?db c = Some (review_card now (Num (of_int q)) doc)"
    using Cons.prems(1) u by (simp add: review_handler_def)
  moreover have "card_ok u (review_card now (Num (of_int q)) doc)"
    using Cons.prems(2) q by (rule review_card_ok)
  ultimately show ?case
    using Cons.IH[OF _ _ rest] by (simp add: r)
qed

section \<open>The scheduler's claims\<close>

text \<open>
  C3. A review keeps the bounds of a card: for an integer quality from 0 to 5, an ease
  factor \<open>>= 1.3\<close> and an interval \<open>>= 1\<close> (as JavaScript compares them, so neither is
  NaN; each may be \<open>Infinity\<close>), the state that \<open>calculateSpacedRepetition\<close> returns has
  again an ease factor \<open>>= 1.3\<close> and an interval \<open>>= 1\<close>, whatever the repetition count
  and the clock. Hence after any sequence of review requests with such qualities for a
  card stored with the defaults (repetitions 0, ease factor 2.5, interval 1), the
  stored ease factor is \<open>>= 1.3\<close> and the stored interval \<open>>= 1\<close>.
\<close>
theorem ease_floor_preserved:
  "(0 \<le> q \<and> q \<le> 5 \<and> js_ge ef (lit (13 / 10)) \<and> js_ge ivl (Num 1) \<longrightarrow>
      js_ge (easeFactor (calculateSpacedRepetition now (Num (of_int q)) reps ef ivl)) (lit (13 / 10)) \<and>
      js_ge (interval (calculateSpacedRepetition now (Num (of_int q)) reps ef ivl)) (Num 1)) \<and>
   (flashcards db c = Some (new_card u) \<and> list_all (\<lambda>(t, q). 0 \<le> q \<and> q \<le> 5) rs \<longrightarrow>
      (\<exists>doc e i. flashcards (review_all u c (map (\<lambda>(t, q). (t, Num (of_int q))) rs) db) c = Some doc \<and>
         card_easeFactor doc = Some e \<and> js_ge e (lit (13 / 10)) \<and>
         card_interval doc = Some i \<and> js_ge i (Num 1)))"
proof (intro conjI impI)
  assume a: "0 \<le> q \<and> q \<le> 5 \<and> js_ge ef (lit (13 / 10)) \<and> js_ge ivl (Num 1)"
  then show "js_ge (easeFactor (calculateSpacedRepetition now (Num (of_int q)) reps ef ivl)) (lit (13 / 10))"
    by (intro calc_preserves) simp_all
  from a show "js_ge (interval (calculateSpacedRepetition now (Num (of_int q)) reps ef ivl)) (Num 1)"
    by (intro calc_preserves) simp_all
next
  assume b: "flashcards db c = Some (new_card u) \<and> list_all (\<lambda>(t, q). 0 \<le> q \<and> q \<le> 5) rs"
  then obtain doc where "flashcards (review_all u c (map (\<lambda>(t, q). (t, Num (of_int q))) rs) db) c = Some doc"
      and "card_ok u doc"
    using review_all_ok[OF _ new_card_ok, of db c u rs] by blast
  then show "\<exists>doc e i. flashcards (review_all u c (map (\<lambda>(t, q). (t, Num (of_int q))) rs) db) c = Some doc \<and>
         card_easeFactor doc = Some e \<and> js_ge e (lit (13 / 10)) \<and>
         card_interval doc = Some i \<and> js_ge i (Num 1)"
    by (auto simp: card_ok_def)
qed

theorem ease_floor_preserved_witness:
  "(0 \<le> (4::int) \<and> (4::int) \<le> 5 \<and> js_ge (lit (25 / 10)) (lit (13 / 10)) \<and> js_ge (Num 1) (Num 1)) \<and>
   js_ge (easeFactor (calculateSpacedRepetition (Num 0) (Num 4) (Num 2) (lit (25 / 10)) (Num 1))) (lit (13 / 10)) \<and>
   js_ge (interval (calculateSpacedRepetition (Num 0) (Num 4) (Num 2) (lit (25 / 10)) (Num 1))) (Num 1) \<and>
   (\<exists>doc e i. flashcards (review_all 7 3 [(Num 1000, Num 5), (Num 2000, Num 0)]
        \<lparr> flashcards = [3 \<mapsto> new_card 7], cardsReviewed = Map.empty \<rparr>) 3 = Some doc \<and>
      card_easeFactor doc = Some e \<and> js_ge e (lit (13 / 10)) \<and>
      card_interval doc = Some i \<and> js_ge i (Num 1))"
proof -
  have h: "0 \<le> (4::int) \<and> (4::int) \<le> 5 \<and> js_ge (lit (25 / 10)) (lit (13 / 10)) \<and> js_ge (Num 1) (Num 1)"
    by (simp add: js_ge_def js_eval)
  have g: "flashcards \<lparr> flashcards = [3 \<mapsto> new_card 7], cardsReviewed = Map.empty \<rparr> 3 = Some (new_card 7)
      \<and> list_all (\<lambda>(t, q). 0 \<le> q \<and> q \<le> 5) [(Num 1000, 5::int), (Num 2000, 0)]"
    by simp
  from ease_floor_preserved[of 4 "lit (25 / 10)" "Num 1" "Num 0" "Num 2"
      "\<lparr> flashcards = [3 \<mapsto> new_card 7], cardsReviewed = Map.empty \<rparr>" 3 7
      "[(Num 1000, 5), (Num 2000, 0)]"] h g
  show ?thesis by simp
qed

text \<open>
  C5. For every card state and every quality with \<open>quality < 3\<close>,
  \<open>calculateSpacedRepetition\<close> returns \<open>repetitions = 0\<close> and \<open>interval = 1\<close>.
\<close>
theorem failed_review_resets:
  "js_lt quality (Num 3) \<Longrightarrow>
     repetitions (calculateSpacedRepetition now quality reps ef ivl) = Num 0 \<and>
     interval (calculateSpacedRepetition now quality reps ef ivl) = Num 1"
  by (simp add: repetitions_calc interval_calc)

theorem failed_review_resets_witness:
  "js_lt (Num 2) (Num 3) \<and>
   repetitions (calculateSpacedRepetition (Num 0) (Num 2) (Num 4) (lit (27 / 10)) (Num 16)) = Num 0 \<and>
   interval (calculateSpacedRepetition (Num 0) (Num 2) (Num 4) (lit (27 / 10)) (Num 16)) = Num 1"
  using failed_review_resets[of "Num 2" "Num 0" "Num 4" "lit (27 / 10)" "Num 16"] by simp

text \<open>
  C10. The scheduler of the backend variant returns what the main server's returns:
  the same record at the same clock reading, and the same \<open>repetitions\<close>, \<open>interval\<close>
  and \<open>easeFactor\<close> at any two clock readings.
\<close>
theorem backend_copy_equal:
  "calculateSpacedRepetition_backend now quality reps ef ivl =
     calculateSpacedRepetition now quality reps ef ivl \<and>
   repetitions (calculateSpacedRepetition_backend now' quality reps ef ivl) =
     repetitions (calculateSpacedRepetition now quality reps ef ivl) \<and>
   interval (calculateSpacedRepetition_backend now' quality reps ef ivl) =
     interval (calculateSpacedRepetition now quality reps ef ivl) \<and>
   easeFactor (calculateSpacedRepetition_backend now' quality reps ef ivl) =
     easeFactor (calculateSpacedRepetition now quality reps ef ivl)"
  by (simp add: calculateSpacedRepetition_backend_def calculateSpacedRepetition_def Let_def)

lemma c4_5:
  "Math_max (lit (13 / 10)) (js_add (lit (27 / 10)) (ease_delta (Num 2))) = lit (238 / 100)"
  by (simp add: ease_delta_values js_eval)

text \<open>
  C4. From a new card (repetitions 0, ease factor 2.5, interval 1) a review of quality
  5 yields repetitions 1, interval 1 and ease factor 2.6; a second one yields
  repetitions 2, interval 6 and ease factor 2.7. After these two, a third review of
  quality 5 yields the interval \<open>Math.round(6 * 2.7)\<close>, which is 16, and a review of
  quality 2 yields repetitions 0, interval 1 and the ease factor
  \<open>Math.max(1.3, 2.7 + (0.1 - 3 * (0.08 + 3 * 0.02)))\<close>, which is the double 2.38. Every
  equation is between doubles: \<open>lit x\<close> is the double that the literal \<open>x\<close> denotes.
\<close>
theorem sm2_scenario:
  "(let s1 = calculateSpacedRepetition t1 (Num 5) (Num 0) (lit (25 / 10)) (Num 1);
        s2 = calculateSpacedRepetition t2 (Num 5) (repetitions s1) (easeFactor s1) (interval s1);
        s3 = calculateSpacedRepetition t3 (Num 5) (repetitions s2) (easeFactor s2) (interval s2);
        s4 = calculateSpacedRepetition t4 (Num 2) (repetitions s2) (easeFactor s2) (interval s2)
    in repetitions s1 = Num 1 \<and> interval s1 = Num 1 \<and> easeFactor s1 = lit (26 / 10) \<and>
       repetitions s2 = Num 2 \<and> interval s2 = Num 6 \<and> easeFactor s2 = lit (27 / 10) \<and>
       interval s3 = Math_round (js_mul (Num 6) (easeFactor s2)) \<and> interval s3 = Num 16 \<and>
       repetitions s4 = Num 0 \<and> interval s4 = Num 1 \<and>
       easeFactor s4 = Math_max (lit (13 / 10)) (js_add (lit (27 / 10)) (ease_delta (Num 2))) \<and>
       easeFactor s4 = lit (238 / 100))"
  unfolding Let_def
  by (simp only: c4_1 c4_2 c4_3 c4_4 c4_5 simp_thms)

section \<open>The sessions' and the review endpoint's claims\<close>

lemma js_slice0_nil: "js_slice0 e [] = []"
  by (simp add: js_slice0_def)

lemma next_questions_exhausted:
  assumes "exhausted sid s"
  shows "next_questions now gen sid parsed s = next_from_database now gen sid (limit_of parsed) s"
  using assms
  by (auto simp: next_questions_def exhausted_def Let_def js_slice0_nil split: option.splits)

text \<open>
  C9. When neither the cache entry nor a stored batch of an existing session holds an
  unseen question and the generator fails, \<open>next_questions\<close> answers with status 500
  and leaves the whole server state as it was: no batch is inserted and the session
  document (\<open>currentBatch\<close>, \<open>totalGenerated\<close>, \<open>previousTopics\<close>) is the same. A retry on
  that state calls the generator again: when it then succeeds, the answer reports a
  new batch, and the batch numbered \<open>currentBatch + 1\<close> is appended.
\<close>

theorem generator_failure_keeps_state:
  "exhausted sid s \<and> study_sessions s sid = Some session \<longrightarrow>
     next_questions now None sid parsed s = (Inl 500, s) \<and>
     (let s' = snd (next_questions now None sid parsed s);
          r = next_questions now' (Some ps) sid parsed' s'
      in question_batches s' = question_batches s \<and>
         study_sessions s' sid = Some session \<and>
         (\<exists>a. fst r = Inr a \<and> newBatchGenerated a) \<and>
         question_batches (snd r) = question_batches s @
           [\<lparr> batch_id = next_oid s + length ps, sessionId = sid,
              batchNumber = currentBatch session + 1,
              questions = new_questions (next_oid s) (totalGenerated session) ps,
              batch_createdAt = now' \<rparr>])"
proof (intro impI)
  assume a: "exhausted sid s \<and> study_sessions s sid = Some session"
  then have ex: "exhausted sid s" and se: "study_sessions s sid = Some session" by simp_all
  have nf: "find (\<lambda>b. sessionId b = sid \<and> list_ex is_unseen (questions b)) (question_batches s) = None"
    using ex by (simp add: exhausted_def)
  have fail: "next_questions now None sid parsed s = (Inl 500, s)"
    by (simp add: next_questions_exhausted[OF ex] next_from_database_def nf se)
  have retry: "next_questions now' (Some ps) sid parsed' s =
      next_from_database now' (Some ps) sid (limit_of parsed') s"
    by (rule next_questions_exhausted[OF ex])
  show "next_questions now None sid parsed s = (Inl 500, s) \<and>
     (let s' = snd (next_questions now None sid parsed s);
          r = next_questions now' (Some ps) sid parsed' s'
      in question_batches s' = question_batches s \<and>
         study_sessions s' sid = Some session \<and>
         (\<exists>a. fst r = Inr a \<and> newBatchGenerated a) \<and>
         question_batches (snd r) = question_batches s @
           [\<lparr> batch_id = next_oid s + length ps, sessionId = sid,
              batchNumber = currentBatch session + 1,
              questions = new_questions (next_oid s) (totalGenerated session) ps,
              batch_createdAt = now' \<rparr>])"
    unfolding fail Let_def snd_conv retry
    by (simp add: next_from_database_def nf se Let_def)
qed


theorem generator_failure_keeps_state_witness:
  "(exhausted 100 spent_session \<and>
    study_sessions spent_session 100 =
      Some \<lparr> userId = 1, topicKey = ''biology'', sourceFileIds = [1],
             contextSummary = ''Cells divide by mitosis.'', currentBatch = 1,
             totalGenerated = 20,
             previousTopics = [''Question 1'', ''Question 2'', ''Question 3'', ''Question 4'',
               ''Question 5''],
             createdAt = 1000, updatedAt = 1000 \<rparr>) \<and>
   next_questions 4000 None 100 None spent_session = (Inl 500, spent_session)"
proof -
  have h: "exhausted 100 spent_session \<and>
    study_sessions spent_session 100 =
      Some \<lparr> userId = 1, topicKey = ''biology'', sourceFileIds = [1],
             contextSummary = ''Cells divide by mitosis.'', currentBatch = 1,
             totalGenerated = 20,
             previousTopics = [''Question 1'', ''Question 2'', ''Question 3'', ''Question 4'',
               ''Question 5''],
             createdAt = 1000, updatedAt = 1000 \<rparr>"
    by code_simp
  from generator_failure_keeps_state[of 100 spent_session _ 4000 None, THEN mp, OF h]
  have "next_questions 4000 None 100 None spent_session = (Inl 500, spent_session)"
    by (rule conjunct1)
  with h show ?thesis by (rule conjI)
qed

text \<open>
  C1 says that no question is delivered twice by \<open>next_questions\<close> within a session.
  The handler marks the questions it takes from the cache entry in the cache only;
  the stored batch keeps them unseen. In the sample session the first four requests
  (no \<open>limit\<close>, so five questions each) deliver the twenty questions 101 to 120 from
  the cache; the fifth finds no unseen question there, reads the stored batch and
  delivers the questions 101 to 105 a second time.
\<close>

theorem repeated_delivery:
  "(let r1 = next_questions 2000 None 100 None sample_session;
        r2 = next_questions 3000 None 100 None (snd r1);
        r3 = next_questions 4000 None 100 None (snd r2);
        r4 = next_questions 5000 None 100 None (snd r3);
        r5 = next_questions 6000 None 100 None (snd r4)
    in delivered r1 = [101, 102, 103, 104, 105] \<and>
       delivered r2 = [106, 107, 108, 109, 110] \<and>
       delivered r3 = [111, 112, 113, 114, 115] \<and>
       delivered r4 = [116, 117, 118, 119, 120] \<and>
       delivered r5 = [101, 102, 103, 104, 105])"
  by code_simp

text \<open>
  C6 says that a quality outside 0 to 5 and a limit below 1 are rejected before any
  state changes. Against it: a review of quality 7 changes the stored card (its
  repetitions go from 0 to 1); a request with \<open>limit=0\<close> is answered with five
  questions, which are marked (the next request gets the following five); and a
  request with \<open>limit=-1\<close> is answered with nineteen questions.
\<close>

theorem no_validation_counterexample:
  "map_option card_repetitions (flashcards sample_cards 3) = Some (Some (Num 0)) \<and>
   map_option card_repetitions
     (flashcards (snd (review_handler (Num 1000) (User 7) (Some 3) (Num 7) sample_cards)) 3) =
     Some (Some (Num 1)) \<and>
   delivered (next_questions 2000 None 100 (Some 0) sample_session) = [101, 102, 103, 104, 105] \<and>
   delivered (next_questions 3000 None 100 (Some 0)
       (snd (next_questions 2000 None 100 (Some 0) sample_session))) = [106, 107, 108, 109, 110] \<and>
   length (delivered (next_questions 2000 None 100 (Some (- 1)) sample_session)) = 19"
proof -
  have a: "map_option card_repetitions (flashcards sample_cards 3) = Some (Some (Num 0))"
    by (simp add: sample_cards_def new_card_def)
  have b: "map_option card_repetitions
     (flashcards (snd (review_handler (Num 1000) (User 7) (Some 3) (Num 7) sample_cards)) 3) =
     Some (Some (Num 1))"
    by (simp add: sample_cards_def new_card_def review_handler_def review_card_def Let_def
        repetitions_calc js_eval)
  have c: "delivered (next_questions 2000 None 100 (Some 0) sample_session) = [101, 102, 103, 104, 105] \<and>
   delivered (next_questions 3000 None 100 (Some 0)
       (snd (next_questions 2000 None 100 (Some 0) sample_session))) = [106, 107, 108, 109, 110] \<and>
   length (delivered (next_questions 2000 None 100 (Some (- 1)) sample_session)) = 19"
    by code_simp
  from a b c show ?thesis by blast
qed

lemma next_from_database_errors:
  "fst (next_from_database now gen sid limit s) = Inl e \<Longrightarrow> e = 404 \<or> e = 500"
  by (auto simp: next_from_database_def Let_def split: option.splits if_splits)

lemma next_questions_errors:
  "fst (next_questions now gen sid parsed s) = Inl e \<Longrightarrow> e = 404 \<or> e = 500"
  by (auto simp: next_questions_def Let_def split: option.splits if_splits
      dest: next_from_database_errors)

text \<open>
  C6 as amended. Neither handler validates. For every quality value, a card that
  exists and belongs to the user is overwritten with the result of
  \<open>calculateSpacedRepetition\<close> for that quality. A missing, non-numeric or zero limit
  becomes 5, any other integer is used as it is, and \<open>next_questions\<close> answers with no
  error status but 404 (no such session) and 500 (the generator failed).
\<close>

theorem no_validation:
  "(flashcards db c = Some doc \<and> card_userId doc = u \<longrightarrow>
      flashcards (snd (review_handler now (User u) (Some c) quality db)) c =
        Some (review_card now quality doc)) \<and>
   limit_of None = 5 \<and> limit_of (Some 0) = 5 \<and> (n \<noteq> 0 \<longrightarrow> limit_of (Some n) = n) \<and>
   next_questions t gen sid None s = next_questions t gen sid (Some 5) s \<and>
   next_questions t gen sid (Some 0) s = next_questions t gen sid (Some 5) s \<and>
   (fst (next_questions t gen sid parsed s) = Inl e \<longrightarrow> e = 404 \<or> e = 500)"
proof (intro conjI impI)
  assume "flashcards db c = Some doc \<and> card_userId doc = u"
  then show "flashcards (snd (review_handler now (User u) (Some c) quality db)) c =
      Some (review_card now quality doc)"
    by (simp add: review_handler_def)
next
  assume "n \<noteq> 0"
  then show "limit_of (Some n) = n" by (simp add: limit_of_def)
next
  assume "fst (next_questions t gen sid parsed s) = Inl e"
  then show "e = 404 \<or> e = 500" by (rule next_questions_errors)
qed (simp_all add: limit_of_def next_questions_def)

theorem no_validation_witness:
  "(flashcards sample_cards 3 = Some (new_card 7) \<and> card_userId (new_card 7) = 7) \<and>
   flashcards (snd (review_handler (Num 1000) (User 7) (Some 3) (Num 9) sample_cards)) 3 =
     Some (review_card (Num 1000) (Num 9) (new_card 7)) \<and>
   (- 1) \<noteq> (0::int) \<and> limit_of (Some (- 1)) = - 1 \<and>
   fst (next_questions 2000 None 7 None sample_server) = Inl 404"
proof -
  have h: "flashcards sample_cards 3 = Some (new_card 7) \<and> card_userId (new_card 7) = 7"
    by (simp add: sample_cards_def new_card_def)
  have g: "fst (next_questions 2000 None 7 None sample_server) = Inl 404"
    by code_simp
  from no_validation[of sample_cards 3 "new_card 7" 7 "Num 1000" "Num 9" "- 1" 2000 None 7
      sample_server None 404] h g
  show ?thesis by simp
qed


section \<open>The coordinator's invariant\<close>

lemma coord_invI:
  assumes "\<And>p k. (p, k) \<in> set (running s) \<Longrightarrow> inflightRequests s k = Some p"
    and "\<And>k p. inflightRequests s k = Some p \<Longrightarrow> (p, k) \<in> set (running s)"
    and "\<And>p k. (p, k) \<in> set (running s) \<Longrightarrow> p < next_promise s"
    and "\<And>r p. (r, p) \<in> set (awaiting s) \<Longrightarrow> p < next_promise s"
    and "distinct (map fst (running s))"
    and "\<And>k p. inflightRequests s k = Some p \<Longrightarrow> \<not> fresh (contentCache s k) (clock s)"
  shows "coord_inv s"
  unfolding coord_inv_def using assms by blast

lemma inv_running: "coord_inv s \<Longrightarrow> (p, k) \<in> set (running s) \<Longrightarrow> inflightRequests s k = Some p"
  unfolding coord_inv_def by blast

lemma inv_inflight: "coord_inv s \<Longrightarrow> inflightRequests s k = Some p \<Longrightarrow> (p, k) \<in> set (running s)"
  unfolding coord_inv_def by blast

lemma inv_running_old: "coord_inv s \<Longrightarrow> (p, k) \<in> set (running s) \<Longrightarrow> p < next_promise s"
  unfolding coord_inv_def by blast

lemma inv_awaiting_old: "coord_inv s \<Longrightarrow> (r, p) \<in> set (awaiting s) \<Longrightarrow> p < next_promise s"
  unfolding coord_inv_def by blast

lemma inv_distinct: "coord_inv s \<Longrightarrow> distinct (map fst (running s))"
  unfolding coord_inv_def by blast

lemma inv_stale: "coord_inv s \<Longrightarrow> inflightRequests s k = Some p \<Longrightarrow> \<not> fresh (contentCache s k) (clock s)"
  unfolding coord_inv_def by blast

lemma inv_init: "coord_inv init"
  by (rule coord_invI) (simp_all add: init_def)

lemma fresh_mono: "fresh e (t + int dt) \<Longrightarrow> fresh e t"
  by (cases e) (auto simp: fresh_def)

lemma inv_tick:
  assumes "coord_inv s"
  shows "coord_inv (tick dt s)"
proof (rule coord_invI)
  fix k p assume "inflightRequests (tick dt s) k = Some p"
  then have "\<not> fresh (contentCache s k) (clock s)"
    using inv_stale[OF assms] by (simp add: tick_def)
  then show "\<not> fresh (contentCache (tick dt s) k) (clock (tick dt s))"
    using fresh_mono[of "contentCache s k" "clock s" dt] by (auto simp: tick_def)
qed (use assms in \<open>auto simp: tick_def dest: inv_running inv_inflight inv_running_old inv_awaiting_old inv_distinct\<close>)


lemma inv_start:
  assumes i: "coord_inv s" and n: "inflightRequests s k = None"
    and st: "\<not> fresh (contentCache s k) (clock s)"
  shows "coord_inv (start_generation r k s)"
proof (rule coord_invI)
  fix p k' assume "(p, k') \<in> set (running (start_generation r k s))"
  then have c: "(p, k') \<in> set (running s) \<or> (p = next_promise s \<and> k' = k)"
    by (auto simp: start_generation_def)
  then show "inflightRequests (start_generation r k s) k' = Some p"
  proof
    assume a: "(p, k') \<in> set (running s)"
    then have "inflightRequests s k' = Some p" by (rule inv_running[OF i])
    moreover from this n have "k' \<noteq> k" by auto
    ultimately show ?thesis by (simp add: start_generation_def)
  next
    assume "p = next_promise s \<and> k' = k"
    then show ?thesis by (simp add: start_generation_def)
  qed
  from c show "p < next_promise (start_generation r k s)"
    using inv_running_old[OF i] by (auto simp: start_generation_def less_Suc_eq)
next
  fix k' p assume a: "inflightRequests (start_generation r k s) k' = Some p"
  show "(p, k') \<in> set (running (start_generation r k s))"
  proof (cases "k' = k")
    case True
    then show ?thesis using a by (simp add: start_generation_def)
  next
    case False
    then have "inflightRequests s k' = Some p" using a by (simp add: start_generation_def)
    then have "(p, k') \<in> set (running s)" by (rule inv_inflight[OF i])
    then show ?thesis by (simp add: start_generation_def)
  qed
  show "\<not> fresh (contentCache (start_generation r k s) k') (clock (start_generation r k s))"
  proof (cases "k' = k")
    case True
    then show ?thesis using st by (simp add: start_generation_def)
  next
    case False
    then have "inflightRequests s k' = Some p" using a by (simp add: start_generation_def)
    then have "\<not> fresh (contentCache s k') (clock s)" by (rule inv_stale[OF i])
    then show ?thesis by (simp add: start_generation_def)
  qed
next
  fix r' p assume "(r', p) \<in> set (awaiting (start_generation r k s))"
  then have "(r', p) \<in> set (awaiting s) \<or> p = next_promise s"
    by (auto simp: start_generation_def)
  then show "p < next_promise (start_generation r k s)"
    using inv_awaiting_old[OF i] by (auto simp: start_generation_def less_Suc_eq)
next
  have "next_promise s \<notin> fst ` set (running s)"
  proof
    assume "next_promise s \<in> fst ` set (running s)"
    then obtain k' where "(next_promise s, k') \<in> set (running s)" by auto
    then have "next_promise s < next_promise s" by (rule inv_running_old[OF i])
    then show False by simp
  qed
  then show "distinct (map fst (running (start_generation r k s)))"
    using inv_distinct[OF i] by (simp add: start_generation_def)
qed

lemma arrive_inflight:
  "inflightRequests s k = Some p \<Longrightarrow> arrive r k s = s\<lparr> awaiting := awaiting s @ [(r, p)] \<rparr>"
  by (simp add: arrive_def)

lemma arrive_fresh:
  assumes "inflightRequests s k = None" and "contentCache s k = Some (d, ts)"
    and "clock s - ts < 300000"
  shows "arrive r k s = s\<lparr> replies := replies s @ [(r, Json d)] \<rparr>"
  using assms by (simp add: arrive_def)

lemma arrive_stale:
  assumes "inflightRequests s k = None" and "\<not> fresh (contentCache s k) (clock s)"
  shows "arrive r k s = start_generation r k s"
proof (cases "contentCache s k")
  case None
  then show ?thesis using assms(1) by (simp add: arrive_def)
next
  case (Some e)
  obtain d ts where e: "e = (d, ts)" by (cases e)
  have "\<not> clock s - ts < 300000" using assms(2) Some e by (simp add: fresh_def)
  then show ?thesis using assms(1) Some e by (simp add: arrive_def)
qed

lemma inv_await:
  assumes i: "coord_inv s" and p: "p < next_promise s"
  shows "coord_inv (s\<lparr> awaiting := awaiting s @ [(r, p)] \<rparr>)"
proof (rule coord_invI)
  fix r' p' assume "(r', p') \<in> set (awaiting (s\<lparr> awaiting := awaiting s @ [(r, p)] \<rparr>))"
  then have "(r', p') \<in> set (awaiting s) \<or> p' = p" by auto
  then show "p' < next_promise (s\<lparr> awaiting := awaiting s @ [(r, p)] \<rparr>)"
    using inv_awaiting_old[OF i] p by auto
next
  fix p' k assume "(p', k) \<in> set (running (s\<lparr> awaiting := awaiting s @ [(r, p)] \<rparr>))"
  then have a: "(p', k) \<in> set (running s)" by simp
  show "inflightRequests (s\<lparr> awaiting := awaiting s @ [(r, p)] \<rparr>) k = Some p'"
    using inv_running[OF i a] by simp
  show "p' < next_promise (s\<lparr> awaiting := awaiting s @ [(r, p)] \<rparr>)"
    using inv_running_old[OF i a] by simp
next
  fix k p' assume "inflightRequests (s\<lparr> awaiting := awaiting s @ [(r, p)] \<rparr>) k = Some p'"
  then have a: "inflightRequests s k = Some p'" by simp
  show "(p', k) \<in> set (running (s\<lparr> awaiting := awaiting s @ [(r, p)] \<rparr>))"
    using inv_inflight[OF i a] by simp
  show "\<not> fresh (contentCache (s\<lparr> awaiting := awaiting s @ [(r, p)] \<rparr>) k)
          (clock (s\<lparr> awaiting := awaiting s @ [(r, p)] \<rparr>))"
    using inv_stale[OF i a] by simp
next
  show "distinct (map fst (running (s\<lparr> awaiting := awaiting s @ [(r, p)] \<rparr>)))"
    using inv_distinct[OF i] by simp
qed

lemma inv_reply: "coord_inv (s\<lparr> replies := x \<rparr>) = coord_inv s"
  by (simp add: coord_inv_def)

lemma inv_arrive:
  assumes i: "coord_inv s"
  shows "coord_inv (arrive r k s)"
proof (cases "inflightRequests s k")
  case (Some p)
  have "(p, k) \<in> set (running s)" using Some by (rule inv_inflight[OF i])
  then have "p < next_promise s" by (rule inv_running_old[OF i])
  then have "coord_inv (s\<lparr> awaiting := awaiting s @ [(r, p)] \<rparr>)"
    by (rule inv_await[OF i])
  then show ?thesis unfolding arrive_inflight[OF Some] .
next
  case None
  show ?thesis
  proof (cases "fresh (contentCache s k) (clock s)")
    case True
    obtain e where c0: "contentCache s k = Some e"
      using True by (cases "contentCache s k") (simp_all add: fresh_def)
    obtain d ts where e: "e = (d, ts)" by (cases e)
    have f: "clock s - ts < 300000" using True c0 e by (simp add: fresh_def)
    have c: "contentCache s k = Some (d, ts)" using c0 e by simp
    show ?thesis unfolding arrive_fresh[OF None c f] using i by (simp only: inv_reply)
  next
    case False
    show ?thesis unfolding arrive_stale[OF None False] by (rule inv_start[OF i None False])
  qed
qed


lemma running_unique:
  assumes "distinct (map fst xs)" and "(p, k) \<in> set xs" and "(p, k') \<in> set xs"
  shows "k = k'"
  using assms by (rule eq_key_imp_eq_value)

lemma settle_idle: "map_of (running s) p = None \<Longrightarrow> settle p out s = s"
  by (simp add: settle_def)

lemma settle_fields:
  assumes "map_of (running s) p = Some k"
  shows "running (settle p out s) = filter (\<lambda>(p', k'). p' \<noteq> p) (running s)"
    and "inflightRequests (settle p out s) = (inflightRequests s)(k := None)"
    and "awaiting (settle p out s) = filter (\<lambda>(r, p'). p' \<noteq> p) (awaiting s)"
    and "next_promise (settle p out s) = next_promise s"
    and "clock (settle p out s) = clock s"
    and "last_sweep (settle p out s) = last_sweep s"
    and "produced (settle p out s) = produced s"
    and "replies (settle p out s) = replies s @
           map (\<lambda>(r, p'). (r, reply_of out)) (filter (\<lambda>(r, p'). p' = p) (awaiting s))"
    and "contentCache (settle p out s) =
           (case out of Fulfilled d \<Rightarrow> (contentCache s)(k \<mapsto> (d, clock s))
                      | Rejected msg \<Rightarrow> contentCache s)"
  using assms by (simp_all add: settle_def)

lemma inv_settle:
  assumes i: "coord_inv s"
  shows "coord_inv (settle p out s)"
proof (cases "map_of (running s) p")
  case None
  then show ?thesis using i by (simp only: settle_idle)
next
  case (Some k)
  note f = settle_fields[OF Some, of out]
  have pk: "(p, k) \<in> set (running s)" using Some by (rule map_of_SomeD)
  have d: "distinct (map fst (running s))" by (rule inv_distinct[OF i])
  have ik: "inflightRequests s k = Some p" using pk by (rule inv_running[OF i])
  show ?thesis
  proof (rule coord_invI)
    fix p' k' assume "(p', k') \<in> set (running (settle p out s))"
    then have a: "(p', k') \<in> set (running s)" and n: "p' \<noteq> p" by (auto simp: f(1))
    have a': "inflightRequests s k' = Some p'" using a by (rule inv_running[OF i])
    have "k' \<noteq> k" using a' ik n by auto
    then show "inflightRequests (settle p out s) k' = Some p'" using a' by (simp add: f(2))
    show "p' < next_promise (settle p out s)" using inv_running_old[OF i a] by (simp add: f(4))
  next
    fix k' p' assume "inflightRequests (settle p out s) k' = Some p'"
    then have n: "k' \<noteq> k" and a: "inflightRequests s k' = Some p'"
      by (auto simp: f(2) split: if_splits)
    have r: "(p', k') \<in> set (running s)" using a by (rule inv_inflight[OF i])
    have "p' \<noteq> p"
    proof
      assume "p' = p"
      then have "(p, k') \<in> set (running s)" using r by simp
      then have "k' = k" using pk by (rule running_unique[OF d])
      then show False using n by simp
    qed
    then show "(p', k') \<in> set (running (settle p out s))" using r by (simp add: f(1))
    have "\<not> fresh (contentCache s k') (clock s)" using a by (rule inv_stale[OF i])
    then show "\<not> fresh (contentCache (settle p out s) k') (clock (settle p out s))"
      using n by (cases out) (simp_all add: settle_fields[OF Some])
  next
    fix r p' assume "(r, p') \<in> set (awaiting (settle p out s))"
    then have "(r, p') \<in> set (awaiting s)" by (auto simp: f(3))
    then show "p' < next_promise (settle p out s)" using inv_awaiting_old[OF i] by (simp add: f(4))
  next
    show "distinct (map fst (running (settle p out s)))"
      using d by (simp add: f(1) distinct_map_filter)
  qed
qed

lemma sweep_fields:
  "running (sweep s) = running s" "inflightRequests (sweep s) = inflightRequests s"
  "awaiting (sweep s) = awaiting s" "next_promise (sweep s) = next_promise s"
  "clock (sweep s) = clock s" "produced (sweep s) = produced s" "replies (sweep s) = replies s"
  by (simp_all add: sweep_def)

lemma sweep_not_fresh:
  "\<not> fresh (contentCache s k) t \<Longrightarrow> \<not> fresh (contentCache (sweep s) k) t"
  by (cases "contentCache s k") (auto simp: sweep_def fresh_def split: if_splits)

lemma inv_sweep:
  assumes i: "coord_inv s"
  shows "coord_inv (sweep s)"
proof (rule coord_invI)
  fix k p assume "inflightRequests (sweep s) k = Some p"
  then have a: "inflightRequests s k = Some p" by (simp add: sweep_fields)
  show "(p, k) \<in> set (running (sweep s))" using inv_inflight[OF i a] by (simp add: sweep_fields)
  show "\<not> fresh (contentCache (sweep s) k) (clock (sweep s))"
    using sweep_not_fresh[OF inv_stale[OF i a]] by (simp add: sweep_fields)
next
  fix p k assume "(p, k) \<in> set (running (sweep s))"
  then have a: "(p, k) \<in> set (running s)" by (simp add: sweep_fields)
  show "inflightRequests (sweep s) k = Some p" using inv_running[OF i a] by (simp add: sweep_fields)
  show "p < next_promise (sweep s)" using inv_running_old[OF i a] by (simp add: sweep_fields)
next
  fix r p assume "(r, p) \<in> set (awaiting (sweep s))"
  then have "(r, p) \<in> set (awaiting s)" by (simp add: sweep_fields)
  then show "p < next_promise (sweep s)" using inv_awaiting_old[OF i] by (simp add: sweep_fields)
next
  show "distinct (map fst (running (sweep s)))" using inv_distinct[OF i] by (simp add: sweep_fields)
qed

lemma inv_step: "coord_inv s \<Longrightarrow> coord_inv (step e s)"
  by (cases e) (simp_all only: step.simps inv_arrive inv_settle inv_sweep inv_tick)

lemma inv_run: "coord_inv s \<Longrightarrow> coord_inv (run evs s)"
proof (induction evs arbitrary: s)
  case Nil
  then show ?case by simp
next
  case (Cons e evs)
  from Cons.prems have "coord_inv (step e s)" by (rule inv_step)
  then have "coord_inv (run evs (step e s))" by (rule Cons.IH)
  then show ?case by simp
qed

lemma inv_reachable: "coord_inv (run evs init)"
  by (rule inv_run[OF inv_init])

lemma one_generation_per_key:
  assumes i: "coord_inv s"
  shows "distinct (map snd (running s))"
proof -
  have d: "distinct (map fst (running s))" by (rule inv_distinct[OF i])
  have "inj_on snd (set (running s))"
  proof (rule inj_onI)
    fix x y assume x: "x \<in> set (running s)" and y: "y \<in> set (running s)" and e: "snd x = snd y"
    obtain p k where xp: "x = (p, k)" by (cases x)
    obtain p' k' where yp: "y = (p', k')" by (cases y)
    have "inflightRequests s k = Some p" using x xp inv_running[OF i] by simp
    moreover have "inflightRequests s k = Some p'" using y yp e xp inv_running[OF i] by simp
    ultimately show "x = y" using xp yp e by simp
  qed
  moreover have "distinct (running s)" using d by (simp add: distinct_map)
  ultimately show ?thesis by (simp add: distinct_map)
qed


lemma tick_fields:
  "running (tick dt s) = running s" "inflightRequests (tick dt s) = inflightRequests s"
  "awaiting (tick dt s) = awaiting s" "next_promise (tick dt s) = next_promise s"
  "clock (tick dt s) = clock s + int dt" "produced (tick dt s) = produced s"
  "replies (tick dt s) = replies s" "contentCache (tick dt s) = contentCache s"
  "last_sweep (tick dt s) = last_sweep s"
  by (simp_all add: tick_def)

lemma produced_for_tick: "produced_for k (tick dt s) = produced_for k s"
  by (simp add: produced_for_def tick_fields)

lemma joined_tick: "joined p (tick dt s) = joined p s"
  by (simp add: joined_def tick_fields)

lemma arrive_same_key:
  assumes "inflightRequests s k = Some p"
  shows "inflightRequests (arrive r k s) k = Some p"
    and "produced_for k (arrive r k s) = produced_for k s"
    and "joined p (arrive r k s) = joined p s @ [r]"
  using assms by (simp_all add: arrive_inflight produced_for_def joined_def)

lemma arrive_other_key:
  assumes i: "coord_inv s" and a: "inflightRequests s k = Some p" and n: "k' \<noteq> k"
  shows "inflightRequests (arrive r k' s) k = Some p"
    and "produced_for k (arrive r k' s) = produced_for k s"
    and "joined p (arrive r k' s) = joined p s"
proof -
  have pk: "(p, k) \<in> set (running s)" using a by (rule inv_inflight[OF i])
  have old: "p < next_promise s" using pk by (rule inv_running_old[OF i])
  show "inflightRequests (arrive r k' s) k = Some p"
    and "produced_for k (arrive r k' s) = produced_for k s"
    and "joined p (arrive r k' s) = joined p s"
  proof (atomize (full), cases "inflightRequests s k'")
    case (Some p')
    have "(p', k') \<in> set (running s)" using Some by (rule inv_inflight[OF i])
    then have "p' \<noteq> p" using pk n running_unique[OF inv_distinct[OF i]] by blast
    then show "inflightRequests (arrive r k' s) k = Some p \<and>
        produced_for k (arrive r k' s) = produced_for k s \<and>
        joined p (arrive r k' s) = joined p s"
      using a by (simp add: arrive_inflight[OF Some] produced_for_def joined_def)
  next
    case None
    show "inflightRequests (arrive r k' s) k = Some p \<and>
        produced_for k (arrive r k' s) = produced_for k s \<and>
        joined p (arrive r k' s) = joined p s"
    proof (cases "fresh (contentCache s k') (clock s)")
      case True
      obtain e where c0: "contentCache s k' = Some e"
        using True by (cases "contentCache s k'") (simp_all add: fresh_def)
      obtain d ts where e: "e = (d, ts)" by (cases e)
      have f: "clock s - ts < 300000" using True c0 e by (simp add: fresh_def)
      have c: "contentCache s k' = Some (d, ts)" using c0 e by simp
      show ?thesis using a by (simp add: arrive_fresh[OF None c f] produced_for_def joined_def)
    next
      case False
      show ?thesis using a n old
        by (simp add: arrive_stale[OF None False] start_generation_def produced_for_def joined_def)
    qed
  qed
qed

lemma settle_other:
  assumes i: "coord_inv s" and a: "inflightRequests s k = Some p" and n: "p' \<noteq> p"
  shows "inflightRequests (settle p' out s) k = Some p"
    and "produced_for k (settle p' out s) = produced_for k s"
    and "joined p (settle p' out s) = joined p s"
proof -
  show "inflightRequests (settle p' out s) k = Some p"
    and "produced_for k (settle p' out s) = produced_for k s"
    and "joined p (settle p' out s) = joined p s"
  proof (atomize (full), cases "map_of (running s) p'")
    case None
    then show "inflightRequests (settle p' out s) k = Some p \<and>
        produced_for k (settle p' out s) = produced_for k s \<and>
        joined p (settle p' out s) = joined p s"
      using a by (simp add: settle_idle)
  next
    case (Some k')
    have "(p', k') \<in> set (running s)" using Some by (rule map_of_SomeD)
    then have "inflightRequests s k' = Some p'" by (rule inv_running[OF i])
    then have nk: "k' \<noteq> k" using a n by auto
    have "filter (\<lambda>(r, q). q = p) (filter (\<lambda>(r, q). q \<noteq> p') (awaiting s)) =
          filter (\<lambda>(r, q). q = p) (awaiting s)"
      using n by (auto intro: filter_cong)
    then show "inflightRequests (settle p' out s) k = Some p \<and>
        produced_for k (settle p' out s) = produced_for k s \<and>
        joined p (settle p' out s) = joined p s"
      using a nk by (simp add: settle_fields[OF Some] produced_for_def joined_def)
  qed
qed

lemma sweep_other:
  assumes "inflightRequests s k = Some p"
  shows "inflightRequests (sweep s) k = Some p"
    and "produced_for k (sweep s) = produced_for k s"
    and "joined p (sweep s) = joined p s"
  using assms by (simp_all add: sweep_fields produced_for_def joined_def)

lemma run_while_inflight:
  assumes "coord_inv s" and "inflightRequests s k = Some p" and "\<not> settles p evs"
  shows "inflightRequests (run evs s) k = Some p \<and>
         produced_for k (run evs s) = produced_for k s \<and>
         joined p (run evs s) = joined p s @ arrivals k evs"
  using assms
proof (induction evs arbitrary: s)
  case Nil
  then show ?case by simp
next
  case (Cons e evs)
  have it: "coord_inv (tick dt s)" for dt using Cons.prems(1) by (rule inv_tick)
  have at: "inflightRequests (tick dt s) k = Some p" for dt
    using Cons.prems(2) by (simp add: tick_fields)
  have istep: "coord_inv (step e s)" using Cons.prems(1) by (rule inv_step)
  have one: "inflightRequests (step e s) k = Some p \<and>
      produced_for k (step e s) = produced_for k s \<and>
      joined p (step e s) = joined p s @ arrivals k [e]"
  proof (cases e)
    case (Arrive dt r k')
    show ?thesis
    proof (cases "k' = k")
      case True
      then show ?thesis
        using arrive_same_key[OF at[of dt], where r = r]
        by (simp add: Arrive produced_for_tick joined_tick)
    next
      case False
      then show ?thesis
        using arrive_other_key[OF it[of dt] at[of dt] False, where r = r]
        by (simp add: Arrive produced_for_tick joined_tick)
    qed
  next
    case (Settle dt p' out)
    then have "p' \<noteq> p" using Cons.prems(3) by simp
    then show ?thesis
      using settle_other[OF it[of dt] at[of dt], where p' = p' and out = out]
      by (simp add: Settle produced_for_tick joined_tick)
  next
    case (Sweep dt)
    then show ?thesis
      using sweep_other[OF at[of dt]]
      by (simp add: produced_for_tick joined_tick)
  qed
  have rest: "\<not> settles p evs" using Cons.prems(3) by (cases e) simp_all
  have ae: "arrivals k (e # evs) = arrivals k [e] @ arrivals k evs"
    by (cases e) simp_all
  from Cons.IH[OF istep conjunct1[OF one] rest] one ae
  show ?case by simp
qed


lemma map_of_running:
  assumes i: "coord_inv s" and a: "inflightRequests s k = Some p"
  shows "map_of (running s) p = Some k"
  using inv_distinct[OF i] inv_inflight[OF i a] by simp

lemma not_fresh_later: "\<not> fresh e t \<Longrightarrow> \<not> fresh e (t + int dt)"
  by (cases e) (auto simp: fresh_def)

lemma joined_new:
  assumes i: "coord_inv s"
  shows "joined (next_promise s) s = []"
proof -
  have "filter (\<lambda>(r, p'). p' = next_promise s) (awaiting s) = []"
    using inv_awaiting_old[OF i] by (auto simp: filter_empty_conv)
  then show ?thesis by (simp add: joined_def)
qed

lemma answers_joined:
  "map (\<lambda>(r, p'). (r, x)) (filter (\<lambda>(r, p'). p' = p) (awaiting s)) = map (\<lambda>r. (r, x)) (joined p s)"
  by (simp add: joined_def case_prod_beta comp_def)

lemma first_arrival:
  assumes i: "coord_inv s" and n: "inflightRequests s k = None"
    and st: "\<not> fresh (contentCache s k) (clock s + int dt)"
  shows "coord_inv (step (Arrive dt r k) s)"
    and "inflightRequests (step (Arrive dt r k) s) k = Some (next_promise s)"
    and "produced_for k (step (Arrive dt r k) s) = produced_for k s @ [next_promise s]"
    and "produced (step (Arrive dt r k) s) = produced s @ [(k, next_promise s)]"
    and "replies (step (Arrive dt r k) s) = replies s"
    and "joined (next_promise s) (step (Arrive dt r k) s) = [r]"
proof -
  have it: "coord_inv (tick dt s)" using i by (rule inv_tick)
  have n': "inflightRequests (tick dt s) k = None" using n by (simp add: tick_fields)
  have st': "\<not> fresh (contentCache (tick dt s) k) (clock (tick dt s))"
    using st by (simp add: tick_fields)
  have e: "arrive r k (tick dt s) = start_generation r k (tick dt s)"
    by (rule arrive_stale[OF n' st'])
  show "coord_inv (step (Arrive dt r k) s)" using i by (rule inv_step)
  show "inflightRequests (step (Arrive dt r k) s) k = Some (next_promise s)"
    by (simp add: e start_generation_def tick_fields)
  show "produced_for k (step (Arrive dt r k) s) = produced_for k s @ [next_promise s]"
    by (simp add: e start_generation_def tick_fields produced_for_def)
  show "produced (step (Arrive dt r k) s) = produced s @ [(k, next_promise s)]"
    by (simp add: e start_generation_def tick_fields)
  show "replies (step (Arrive dt r k) s) = replies s"
    by (simp add: e start_generation_def tick_fields)
  have "joined (next_promise s) (tick dt s) = []"
    using joined_new[OF it] by (simp add: tick_fields)
  then show "joined (next_promise s) (step (Arrive dt r k) s) = [r]"
    by (simp add: e start_generation_def joined_def tick_fields)
qed

lemma coalesced_run:
  assumes i: "coord_inv s" and n: "inflightRequests s k = None"
    and st: "\<not> fresh (contentCache s k) (clock s + int dt)"
    and ns: "\<not> settles (next_promise s) evs"
  shows "coord_inv (run (Arrive dt r k # evs) s)"
    and "inflightRequests (run (Arrive dt r k # evs) s) k = Some (next_promise s)"
    and "produced_for k (run (Arrive dt r k # evs) s) = produced_for k s @ [next_promise s]"
    and "joined (next_promise s) (run (Arrive dt r k # evs) s) = r # arrivals k evs"
proof -
  note f = first_arrival[OF i n st, of r]
  note w = run_while_inflight[OF f(1) f(2) ns]
  show "coord_inv (run (Arrive dt r k # evs) s)" using inv_run[OF f(1), of evs] by simp
  show "inflightRequests (run (Arrive dt r k # evs) s) k = Some (next_promise s)"
    using w by simp
  show "produced_for k (run (Arrive dt r k # evs) s) = produced_for k s @ [next_promise s]"
    using w f(3) by simp
  show "joined (next_promise s) (run (Arrive dt r k # evs) s) = r # arrivals k evs"
    using w f(6) by simp
qed

lemma settle_inflight:
  assumes i: "coord_inv s" and a: "inflightRequests s k = Some p"
  shows "inflightRequests (step (Settle dt p out) s) k = None"
    and "replies (step (Settle dt p out) s) = replies s @ map (\<lambda>r. (r, reply_of out)) (joined p s)"
    and "next_promise (step (Settle dt p out) s) = next_promise s"
    and "produced (step (Settle dt p out) s) = produced s"
    and "clock (step (Settle dt p out) s) = clock s + int dt"
    and "coord_inv (step (Settle dt p out) s)"
proof -
  have it: "coord_inv (tick dt s)" using i by (rule inv_tick)
  have at: "inflightRequests (tick dt s) k = Some p" using a by (simp add: tick_fields)
  note m = map_of_running[OF it at]
  show "inflightRequests (step (Settle dt p out) s) k = None"
    by (simp add: settle_fields[OF m])
  show "replies (step (Settle dt p out) s) = replies s @ map (\<lambda>r. (r, reply_of out)) (joined p s)"
    by (simp add: settle_fields[OF m] answers_joined joined_tick tick_fields)
  show "next_promise (step (Settle dt p out) s) = next_promise s"
    by (simp add: settle_fields[OF m] tick_fields)
  show "produced (step (Settle dt p out) s) = produced s"
    by (simp add: settle_fields[OF m] tick_fields)
  show "clock (step (Settle dt p out) s) = clock s + int dt"
    by (simp add: settle_fields[OF m] tick_fields)
  show "coord_inv (step (Settle dt p out) s)" using i by (rule inv_step)
qed

lemma settle_rejected_cache:
  assumes i: "coord_inv s" and a: "inflightRequests s k = Some p"
  shows "contentCache (step (Settle dt p (Rejected msg)) s) = contentCache s"
proof -
  have it: "coord_inv (tick dt s)" using i by (rule inv_tick)
  have at: "inflightRequests (tick dt s) k = Some p" using a by (simp add: tick_fields)
  show ?thesis by (simp add: settle_fields[OF map_of_running[OF it at]] tick_fields)
qed

lemma settle_fulfilled_cache:
  assumes i: "coord_inv s" and a: "inflightRequests s k = Some p"
  shows "contentCache (step (Settle dt p (Fulfilled d)) s) k = Some (d, clock s + int dt)"
proof -
  have it: "coord_inv (tick dt s)" using i by (rule inv_tick)
  have at: "inflightRequests (tick dt s) k = Some p" using a by (simp add: tick_fields)
  show ?thesis by (simp add: settle_fields[OF map_of_running[OF it at]] tick_fields)
qed

lemma served_from_cache:
  assumes n: "inflightRequests s k = None" and c: "contentCache s k = Some (d, ts)"
    and f: "clock s + int dt - ts < 300000"
  shows "produced (step (Arrive dt r k) s) = produced s"
    and "replies (step (Arrive dt r k) s) = replies s @ [(r, Json d)]"
    and "inflightRequests (step (Arrive dt r k) s) k = None"
proof -
  have n': "inflightRequests (tick dt s) k = None" using n by (simp add: tick_fields)
  have c': "contentCache (tick dt s) k = Some (d, ts)" using c by (simp add: tick_fields)
  have f': "clock (tick dt s) - ts < 300000" using f by (simp add: tick_fields)
  note e = arrive_fresh[OF n' c' f', of r]
  show "produced (step (Arrive dt r k) s) = produced s" by (simp add: e tick_fields)
  show "replies (step (Arrive dt r k) s) = replies s @ [(r, Json d)]" by (simp add: e tick_fields)
  show "inflightRequests (step (Arrive dt r k) s) k = None" by (simp add: e tick_fields n)
qed

lemma collect_failed:
  "list_all (\<lambda>key. isl (gen key)) tasks \<Longrightarrow> collect (allSettled tasks gen) = []"
proof (induction tasks)
  case Nil
  then show ?case by (simp add: allSettled_def)
next
  case (Cons key tasks)
  then obtain msg where "gen key = Inl msg" by (cases "gen key") auto
  then show ?case using Cons by (simp add: allSettled_def)
qed

lemma outcome_of_generation:
  "outcome_of (generationPromise mode gen (Inl msg)) = Rejected msg"
  "outcome_of (generationPromise mode gen (Inr oid)) = Fulfilled oid"
  by (simp_all add: outcome_of_def generationPromise_def)

section \<open>The coordinator's claims\<close>

lemmas coord_eval = init_def tick_def arrive_def start_generation_def settle_def sweep_def
  fresh_def reply_of_def produced_for_def joined_def sample_key_def other_key_def

lemmas gen_eval = tasks_of_def allSettled_def generationPromise_def outcome_of_def
  failing_generator_def

text \<open>
  C2. In every state that the coordinator reaches, no two running generations have the
  same fingerprint. And when a request \<open>r\<close> with fingerprint \<open>k\<close> arrives while \<open>k\<close> is
  neither in flight nor freshly cached, then over any further events that do not
  settle the promise \<open>p\<close> it starts (requests with any fingerprint, other generations
  ending, sweeps): \<open>p\<close> is the one generation started for \<open>k\<close>; \<open>r\<close> and every later
  request with fingerprint \<open>k\<close> await \<open>p\<close>; and when \<open>p\<close> settles, each of them is
  answered with its outcome, the same result or the same error.
\<close>
theorem coalescing:
  "distinct (map snd (running (run pre init))) \<and>
   (inflightRequests (run pre init) k = None \<and>
    \<not> fresh (contentCache (run pre init) k) (clock (run pre init) + int dt) \<and>
    \<not> settles (next_promise (run pre init)) evs \<longrightarrow>
      (let s0 = run pre init; p = next_promise s0;
           s2 = run (Arrive dt r k # evs) s0;
           s3 = step (Settle dt' p out) s2
       in produced_for k s2 = produced_for k s0 @ [p] \<and>
          distinct (map snd (running s2)) \<and>
          joined p s2 = r # arrivals k evs \<and>
          replies s3 = replies s2 @ map (\<lambda>r'. (r', reply_of out)) (r # arrivals k evs)))"
proof (intro conjI impI)
  show "distinct (map snd (running (run pre init)))"
    by (rule one_generation_per_key[OF inv_reachable])
next
  assume h: "inflightRequests (run pre init) k = None \<and>
    \<not> fresh (contentCache (run pre init) k) (clock (run pre init) + int dt) \<and>
    \<not> settles (next_promise (run pre init)) evs"
  note c = coalesced_run[OF inv_reachable conjunct1[OF h] conjunct1[OF conjunct2[OF h]]
      conjunct2[OF conjunct2[OF h]], of r]
  note s = settle_inflight[OF c(1) c(2), of dt' out]
  show "let s0 = run pre init; p = next_promise s0;
           s2 = run (Arrive dt r k # evs) s0;
           s3 = step (Settle dt' p out) s2
       in produced_for k s2 = produced_for k s0 @ [p] \<and>
          distinct (map snd (running s2)) \<and>
          joined p s2 = r # arrivals k evs \<and>
          replies s3 = replies s2 @ map (\<lambda>r'. (r', reply_of out)) (r # arrivals k evs)"
    unfolding Let_def
    using c(3) c(4) s(2) one_generation_per_key[OF c(1)] by simp
qed


theorem coalescing_witness:
  "(inflightRequests (run [] init) sample_key = None \<and>
    \<not> fresh (contentCache (run [] init) sample_key) (clock (run [] init) + int 0) \<and>
    \<not> settles (next_promise (run [] init))
        [Arrive 10 2 sample_key, Arrive 5 3 other_key, Arrive 20 4 sample_key]) \<and>
   (let s0 = run [] init; p = next_promise s0;
        s2 = run (Arrive 0 1 sample_key #
                  [Arrive 10 2 sample_key, Arrive 5 3 other_key, Arrive 20 4 sample_key]) s0;
        s3 = step (Settle 4000 p (Fulfilled 77)) s2
    in produced_for sample_key s2 = produced_for sample_key s0 @ [p] \<and>
       distinct (map snd (running s2)) \<and>
       joined p s2 =
         1 # arrivals sample_key [Arrive 10 2 sample_key, Arrive 5 3 other_key, Arrive 20 4 sample_key] \<and>
       replies s3 = replies s2 @
         map (\<lambda>r'. (r', reply_of (Fulfilled 77)))
           (1 # arrivals sample_key
              [Arrive 10 2 sample_key, Arrive 5 3 other_key, Arrive 20 4 sample_key])) \<and>
   produced (run [Arrive 0 1 sample_key, Arrive 10 2 sample_key, Arrive 5 3 other_key,
                  Arrive 20 4 sample_key, Settle 4000 0 (Fulfilled 77)] init) =
     [(sample_key, 0), (other_key, 1)] \<and>
   replies (run [Arrive 0 1 sample_key, Arrive 10 2 sample_key, Arrive 5 3 other_key,
                 Arrive 20 4 sample_key, Settle 4000 0 (Fulfilled 77)] init) =
     [(1, Json 77), (2, Json 77), (4, Json 77)]"
proof -
  have h: "inflightRequests (run [] init) sample_key = None \<and>
    \<not> fresh (contentCache (run [] init) sample_key) (clock (run [] init) + int 0) \<and>
    \<not> settles (next_promise (run [] init))
        [Arrive 10 2 sample_key, Arrive 5 3 other_key, Arrive 20 4 sample_key]"
    by (simp add: coord_eval)
  note c = coalescing[of "[]" sample_key 0
      "[Arrive 10 2 sample_key, Arrive 5 3 other_key, Arrive 20 4 sample_key]" 1 4000 "Fulfilled 77",
      THEN conjunct2, THEN mp, OF h]
  have e: "produced (run [Arrive 0 1 sample_key, Arrive 10 2 sample_key, Arrive 5 3 other_key,
                  Arrive 20 4 sample_key, Settle 4000 0 (Fulfilled 77)] init) =
     [(sample_key, 0), (other_key, 1)] \<and>
   replies (run [Arrive 0 1 sample_key, Arrive 10 2 sample_key, Arrive 5 3 other_key,
                 Arrive 20 4 sample_key, Settle 4000 0 (Fulfilled 77)] init) =
     [(1, Json 77), (2, Json 77), (4, Json 77)]"
    by (simp add: coord_eval)
  from h c e show ?thesis by (intro conjI) blast+
qed

text \<open>
  C7 says that when the generation fails, the error reaches every coalesced caller,
  nothing is cached and a retry generates again. Against it: summary request 1 starts
  a generation and request 2 joins it; both calls of \<open>generateStudyContent\<close> fail, and
  the promise fulfils all the same, with an empty content. Neither request gets an
  error: both are answered with this response, the response is cached, and request
  3, a retry 50 ms later, is answered from the cache with no second generation.
\<close>

theorem absorbed_failure_counterexample:
  "generationPromise ''summary'' failing_generator (Inr 77) =
     Inr \<lparr> gen_sessionId = 77, gen_content = [] \<rparr> \<and>
   replies
     (run [Arrive 0 1 sample_key, Arrive 10 2 sample_key,
           Settle 9000 0 (outcome_of (generationPromise ''summary'' failing_generator (Inr 77))),
           Arrive 50 3 sample_key] init) =
     [(1, Json 77), (2, Json 77), (3, Json 77)] \<and>
   contentCache
     (run [Arrive 0 1 sample_key, Arrive 10 2 sample_key,
           Settle 9000 0 (outcome_of (generationPromise ''summary'' failing_generator (Inr 77)))] init)
     sample_key = Some (77, 9010) \<and>
   produced
     (run [Arrive 0 1 sample_key, Arrive 10 2 sample_key,
           Settle 9000 0 (outcome_of (generationPromise ''summary'' failing_generator (Inr 77))),
           Arrive 50 3 sample_key] init) = [(sample_key, 0)]"
  by (simp add: gen_eval coord_eval)

text \<open>
  C7 as amended. In the situation of C2, whatever \<open>generateStudyContent\<close> does in the
  tasks and whatever \<open>insertOne\<close> does: once the promise has settled, its fingerprint
  is no longer in flight. The promise rejects when \<open>insertOne\<close> throws: then every
  request that awaited it is answered with the error, the content cache is as it
  was, and the next request with this fingerprint starts a generation again. A
  failing task does not reject the promise: when \<open>insertOne\<close> succeeds it fulfils with
  the content of the tasks that succeeded (an empty content when all failed), every
  request that awaited it is answered with this response, the response is cached
  with the time of the settlement, and a request with this fingerprint less than
  300000 ms later is answered from the cache and starts no generation.
\<close>
theorem failure_cleanup:
  "inflightRequests (run pre init) k = None \<and>
   \<not> fresh (contentCache (run pre init) k) (clock (run pre init) + int dt) \<and>
   \<not> settles (next_promise (run pre init)) evs \<longrightarrow>
     (let s0 = run pre init; p = next_promise s0;
          s2 = run (Arrive dt r k # evs) s0;
          s3 = step (Settle dt' p (outcome_of (generationPromise mode gen inserted))) s2;
          retried = step (Arrive dt'' r' k) s3
      in inflightRequests s3 k = None \<and>
         (case inserted of
            Inl msg \<Rightarrow>
              generationPromise mode gen inserted = Inl msg \<and>
              replies s3 = replies s2 @
                map (\<lambda>r'. (r', Error500 (''Content generation failed: '' @ msg))) (r # arrivals k evs) \<and>
              contentCache s3 = contentCache s2 \<and>
              produced retried = produced s2 @ [(k, next_promise s3)] \<and>
              inflightRequests retried k = Some (next_promise s3)
          | Inr oid \<Rightarrow>
              generationPromise mode gen inserted =
                Inr \<lparr> gen_sessionId = oid,
                      gen_content = collect (allSettled (tasks_of mode) gen) \<rparr> \<and>
              (list_all (\<lambda>key. isl (gen key)) (tasks_of mode) \<longrightarrow>
                 collect (allSettled (tasks_of mode) gen) = []) \<and>
              replies s3 = replies s2 @ map (\<lambda>r'. (r', Json oid)) (r # arrivals k evs) \<and>
              contentCache s3 k = Some (oid, clock s2 + int dt') \<and>
              (int dt'' < 300000 \<longrightarrow>
                 produced retried = produced s2 \<and>
                 replies retried = replies s3 @ [(r', Json oid)] \<and>
                 inflightRequests retried k = None)))"
proof (intro impI)
  assume h: "inflightRequests (run pre init) k = None \<and>
   \<not> fresh (contentCache (run pre init) k) (clock (run pre init) + int dt) \<and>
   \<not> settles (next_promise (run pre init)) evs"
  let ?s0 = "run pre init"
  let ?p = "next_promise ?s0"
  let ?s2 = "run (Arrive dt r k # evs) ?s0"
  let ?out = "outcome_of (generationPromise mode gen inserted)"
  let ?s3 = "step (Settle dt' ?p ?out) ?s2"
  let ?retried = "step (Arrive dt'' r' k) ?s3"
  note c = coalesced_run[OF inv_reachable conjunct1[OF h] conjunct1[OF conjunct2[OF h]]
      conjunct2[OF conjunct2[OF h]], of r]
  note s = settle_inflight[OF c(1) c(2), of dt']
  have gone: "inflightRequests ?s3 k = None" by (rule s(1))
  have rest: "case inserted of
            Inl msg \<Rightarrow>
              generationPromise mode gen inserted = Inl msg \<and>
              replies ?s3 = replies ?s2 @
                map (\<lambda>r'. (r', Error500 (''Content generation failed: '' @ msg))) (r # arrivals k evs) \<and>
              contentCache ?s3 = contentCache ?s2 \<and>
              produced ?retried = produced ?s2 @ [(k, next_promise ?s3)] \<and>
              inflightRequests ?retried k = Some (next_promise ?s3)
          | Inr oid \<Rightarrow>
              generationPromise mode gen inserted =
                Inr \<lparr> gen_sessionId = oid,
                      gen_content = collect (allSettled (tasks_of mode) gen) \<rparr> \<and>
              (list_all (\<lambda>key. isl (gen key)) (tasks_of mode) \<longrightarrow>
                 collect (allSettled (tasks_of mode) gen) = []) \<and>
              replies ?s3 = replies ?s2 @ map (\<lambda>r'. (r', Json oid)) (r # arrivals k evs) \<and>
              contentCache ?s3 k = Some (oid, clock ?s2 + int dt') \<and>
              (int dt'' < 300000 \<longrightarrow>
                 produced ?retried = produced ?s2 \<and>
                 replies ?retried = replies ?s3 @ [(r', Json oid)] \<and>
                 inflightRequests ?retried k = None)"
  proof (cases inserted)
    case (Inl msg)
    have out: "?out = Rejected msg" by (simp only: Inl outcome_of_generation)
    have g: "generationPromise mode gen inserted = Inl msg"
      by (simp add: Inl generationPromise_def)
    have cache: "contentCache ?s3 = contentCache ?s2"
      unfolding out by (rule settle_rejected_cache[OF c(1) c(2)])
    have "\<not> fresh (contentCache ?s2 k) (clock ?s2)" by (rule inv_stale[OF c(1) c(2)])
    then have "\<not> fresh (contentCache ?s2 k) (clock ?s2 + int dt' + int dt'')"
      by (intro not_fresh_later)
    then have st: "\<not> fresh (contentCache ?s3 k) (clock ?s3 + int dt'')"
      by (simp only: cache s(5) simp_thms)
    note a = first_arrival[OF s(6) s(1) st, of r']
    have rep: "replies ?s3 = replies ?s2 @
        map (\<lambda>r'. (r', Error500 (''Content generation failed: '' @ msg))) (r # arrivals k evs)"
      using s(2)[of ?out] c(4) by (simp add: out reply_of_def)
    have pr: "produced ?retried = produced ?s2 @ [(k, next_promise ?s3)]"
      using a(4) s(4)[of ?out] by simp
    show ?thesis
      using g rep cache pr a(2) by (simp only: Inl sum.case simp_thms)
  next
    case (Inr oid)
    have out: "?out = Fulfilled oid" by (simp only: Inr outcome_of_generation)
    have g: "generationPromise mode gen inserted =
        Inr \<lparr> gen_sessionId = oid, gen_content = collect (allSettled (tasks_of mode) gen) \<rparr>"
      by (simp add: Inr generationPromise_def)
    have empty: "list_all (\<lambda>key. isl (gen key)) (tasks_of mode) \<longrightarrow>
        collect (allSettled (tasks_of mode) gen) = []"
      using collect_failed by blast
    have rep: "replies ?s3 = replies ?s2 @ map (\<lambda>r'. (r', Json oid)) (r # arrivals k evs)"
      using s(2)[of ?out] c(4) by (simp add: out reply_of_def)
    have cache: "contentCache ?s3 k = Some (oid, clock ?s2 + int dt')"
      unfolding out by (rule settle_fulfilled_cache[OF c(1) c(2)])
    have again: "int dt'' < 300000 \<longrightarrow>
        produced ?retried = produced ?s2 \<and>
        replies ?retried = replies ?s3 @ [(r', Json oid)] \<and>
        inflightRequests ?retried k = None"
    proof
      assume near: "int dt'' < 300000"
      have cl: "clock ?s3 = clock ?s2 + int dt'" by (rule s(5))
      have f: "clock ?s3 + int dt'' - (clock ?s2 + int dt') < 300000"
        unfolding cl using near by arith
      note v = served_from_cache[OF gone cache f, of r']
      show "produced ?retried = produced ?s2 \<and>
        replies ?retried = replies ?s3 @ [(r', Json oid)] \<and>
        inflightRequests ?retried k = None"
        using v s(4)[of ?out] by simp
    qed
    show ?thesis
      using g empty rep cache again by (simp only: Inr sum.case simp_thms)
  qed
  show "let s0 = run pre init; p = next_promise s0;
          s2 = run (Arrive dt r k # evs) s0;
          s3 = step (Settle dt' p (outcome_of (generationPromise mode gen inserted))) s2;
          retried = step (Arrive dt'' r' k) s3
      in inflightRequests s3 k = None \<and>
         (case inserted of
            Inl msg \<Rightarrow>
              generationPromise mode gen inserted = Inl msg \<and>
              replies s3 = replies s2 @
                map (\<lambda>r'. (r', Error500 (''Content generation failed: '' @ msg))) (r # arrivals k evs) \<and>
              contentCache s3 = contentCache s2 \<and>
              produced retried = produced s2 @ [(k, next_promise s3)] \<and>
              inflightRequests retried k = Some (next_promise s3)
          | Inr oid \<Rightarrow>
              generationPromise mode gen inserted =
                Inr \<lparr> gen_sessionId = oid,
                      gen_content = collect (allSettled (tasks_of mode) gen) \<rparr> \<and>
              (list_all (\<lambda>key. isl (gen key)) (tasks_of mode) \<longrightarrow>
                 collect (allSettled (tasks_of mode) gen) = []) \<and>
              replies s3 = replies s2 @ map (\<lambda>r'. (r', Json oid)) (r # arrivals k evs) \<and>
              contentCache s3 k = Some (oid, clock s2 + int dt') \<and>
              (int dt'' < 300000 \<longrightarrow>
                 produced retried = produced s2 \<and>
                 replies retried = replies s3 @ [(r', Json oid)] \<and>
                 inflightRequests retried k = None))"
    unfolding Let_def using gone rest by (rule conjI)
qed

theorem failure_cleanup_witness:
  "(inflightRequests (run [] init) sample_key = None \<and>
    \<not> fresh (contentCache (run [] init) sample_key) (clock (run [] init) + int 0) \<and>
    \<not> settles (next_promise (run [] init)) [Arrive 10 2 sample_key]) \<and>
   list_all (\<lambda>key. isl (failing_generator key)) (tasks_of ''summary'') \<and>
   int 50 < 300000 \<and>
   (let s0 = run [] init; p = next_promise s0;
        s2 = run (Arrive 0 1 sample_key # [Arrive 10 2 sample_key]) s0;
        s3 = step (Settle 9000 p
               (outcome_of (generationPromise ''summary'' failing_generator (Inr 77)))) s2;
        retried = step (Arrive 50 3 sample_key) s3
    in inflightRequests s3 sample_key = None \<and>
       generationPromise ''summary'' failing_generator (Inr 77) =
         Inr \<lparr> gen_sessionId = 77,
               gen_content = collect (allSettled (tasks_of ''summary'') failing_generator) \<rparr> \<and>
       collect (allSettled (tasks_of ''summary'') failing_generator) = [] \<and>
       replies s3 = replies s2 @
         map (\<lambda>r'. (r', Json 77)) (1 # arrivals sample_key [Arrive 10 2 sample_key]) \<and>
       contentCache s3 sample_key = Some (77, clock s2 + int 9000) \<and>
       produced retried = produced s2 \<and>
       replies retried = replies s3 @ [(3, Json 77)] \<and>
       inflightRequests retried sample_key = None) \<and>
   (let s0 = run [] init; p = next_promise s0;
        s2 = run (Arrive 0 1 sample_key # [Arrive 10 2 sample_key]) s0;
        s3 = step (Settle 9000 p
               (outcome_of (generationPromise ''summary'' failing_generator
                  (Inl ''connection closed'')))) s2;
        retried = step (Arrive 50 3 sample_key) s3
    in inflightRequests s3 sample_key = None \<and>
       generationPromise ''summary'' failing_generator (Inl ''connection closed'') =
         Inl ''connection closed'' \<and>
       replies s3 = replies s2 @
         map (\<lambda>r'. (r', Error500 (''Content generation failed: '' @ ''connection closed'')))
           (1 # arrivals sample_key [Arrive 10 2 sample_key]) \<and>
       contentCache s3 = contentCache s2 \<and>
       produced retried = produced s2 @ [(sample_key, next_promise s3)] \<and>
       inflightRequests retried sample_key = Some (next_promise s3)) \<and>
   replies
     (run [Arrive 0 1 sample_key, Arrive 10 2 sample_key,
           Settle 9000 0 (outcome_of (generationPromise ''summary'' failing_generator
             (Inl ''connection closed'')))] init) =
     [(1, Error500 ''Content generation failed: connection closed''),
      (2, Error500 ''Content generation failed: connection closed'')] \<and>
   produced
     (run [Arrive 0 1 sample_key, Arrive 10 2 sample_key,
           Settle 9000 0 (outcome_of (generationPromise ''summary'' failing_generator
             (Inl ''connection closed''))),
           Arrive 50 3 sample_key] init) = [(sample_key, 0), (sample_key, 1)]"
proof -
  have h: "inflightRequests (run [] init) sample_key = None \<and>
    \<not> fresh (contentCache (run [] init) sample_key) (clock (run [] init) + int 0) \<and>
    \<not> settles (next_promise (run [] init)) [Arrive 10 2 sample_key]"
    by (simp add: coord_eval)
  have t: "list_all (\<lambda>key. isl (failing_generator key)) (tasks_of ''summary'')"
    by (simp add: gen_eval)
  have n: "int 50 < 300000" by simp
  note ok = failure_cleanup[where pre = "[]" and k = sample_key and dt = 0
      and evs = "[Arrive 10 2 sample_key]" and r = 1 and dt' = 9000 and mode = "''summary''"
      and gen = failing_generator and inserted = "Inr 77" and dt'' = 50 and r' = 3,
      THEN mp, OF h, unfolded Let_def sum.case]
  note bad = failure_cleanup[where pre = "[]" and k = sample_key and dt = 0
      and evs = "[Arrive 10 2 sample_key]" and r = 1 and dt' = 9000 and mode = "''summary''"
      and gen = failing_generator and inserted = "Inl ''connection closed''" and dt'' = 50
      and r' = 3, THEN mp, OF h, unfolded Let_def sum.case]
  have e: "replies
     (run [Arrive 0 1 sample_key, Arrive 10 2 sample_key,
           Settle 9000 0 (outcome_of (generationPromise ''summary'' failing_generator
             (Inl ''connection closed'')))] init) =
     [(1, Error500 ''Content generation failed: connection closed''),
      (2, Error500 ''Content generation failed: connection closed'')] \<and>
   produced
     (run [Arrive 0 1 sample_key, Arrive 10 2 sample_key,
           Settle 9000 0 (outcome_of (generationPromise ''summary'' failing_generator
             (Inl ''connection closed''))),
           Arrive 50 3 sample_key] init) = [(sample_key, 0), (sample_key, 1)]"
    by (simp add: gen_eval coord_eval)
  from h t n ok bad e show ?thesis unfolding Let_def by (intro conjI) blast+
qed

text \<open>
  C8. In every state that the coordinator reaches: a request that arrives when the
  cache entry of its fingerprint is 300000 ms old or older is not answered from the
  cache, and it starts a generation unless one is in flight; a request that arrives
  while the entry is younger is answered with the cached value and starts none. A
  sweep, which the timer fires 600000 ms after the last one at the earliest, removes
  the entries older than 300000 ms and keeps the others; before that the cache is
  left alone.
\<close>
theorem cache_expiry:
  "(let s = run pre init
    in (contentCache s k = Some (d, ts) \<and> 300000 \<le> clock s + int dt - ts \<longrightarrow>
          replies (step (Arrive dt r k) s) = replies s \<and>
          (inflightRequests s k = None \<longrightarrow>
             produced (step (Arrive dt r k) s) = produced s @ [(k, next_promise s)])) \<and>
       (contentCache s k = Some (d, ts) \<and> clock s + int dt - ts < 300000 \<longrightarrow>
          replies (step (Arrive dt r k) s) = replies s @ [(r, Json d)] \<and>
          produced (step (Arrive dt r k) s) = produced s) \<and>
       (600000 \<le> clock s + int dt - last_sweep s \<longrightarrow>
          contentCache (step (Sweep dt) s) k =
            (case contentCache s k of
               None \<Rightarrow> None
             | Some (d', ts') \<Rightarrow> if 300000 < clock s + int dt - ts' then None else Some (d', ts'))) \<and>
       (clock s + int dt - last_sweep s < 600000 \<longrightarrow>
          contentCache (step (Sweep dt) s) = contentCache s))"
  unfolding Let_def
proof (intro conjI impI)
  let ?s = "run pre init"
  have i: "coord_inv ?s" by (rule inv_reachable)
  have it: "coord_inv (tick dt ?s)" using i by (rule inv_tick)
  {
    assume a: "contentCache ?s k = Some (d, ts) \<and> 300000 \<le> clock ?s + int dt - ts"
    then have st: "\<not> fresh (contentCache ?s k) (clock ?s + int dt)" by (simp add: fresh_def)
    then have st': "\<not> fresh (contentCache (tick dt ?s) k) (clock (tick dt ?s))"
      by (simp add: tick_fields)
    show "replies (step (Arrive dt r k) ?s) = replies ?s"
    proof (cases "inflightRequests ?s k")
      case None
      then show ?thesis by (rule first_arrival(5)[OF i _ st])
    next
      case (Some p)
      then have "inflightRequests (tick dt ?s) k = Some p" by (simp add: tick_fields)
      then show ?thesis by (simp add: arrive_inflight tick_fields)
    qed
    assume "inflightRequests ?s k = None"
    then show "produced (step (Arrive dt r k) ?s) = produced ?s @ [(k, next_promise ?s)]"
      by (rule first_arrival(4)[OF i _ st])
  }
  {
    assume a: "contentCache ?s k = Some (d, ts) \<and> clock ?s + int dt - ts < 300000"
    then have c: "contentCache (tick dt ?s) k = Some (d, ts)"
      and f: "clock (tick dt ?s) - ts < 300000" by (simp_all add: tick_fields)
    have fr: "fresh (contentCache (tick dt ?s) k) (clock (tick dt ?s))"
      using c f by (simp add: fresh_def)
    have n: "inflightRequests (tick dt ?s) k = None"
    proof (cases "inflightRequests (tick dt ?s) k")
      case None
      then show ?thesis .
    next
      case (Some p)
      from inv_stale[OF it Some] fr show ?thesis by simp
    qed
    show "replies (step (Arrive dt r k) ?s) = replies ?s @ [(r, Json d)]"
      by (simp add: arrive_fresh[OF n c f] tick_fields)
    show "produced (step (Arrive dt r k) ?s) = produced ?s"
      by (simp add: arrive_fresh[OF n c f] tick_fields)
  }
  {
    assume "600000 \<le> clock ?s + int dt - last_sweep ?s"
    then show "contentCache (step (Sweep dt) ?s) k =
            (case contentCache ?s k of
               None \<Rightarrow> None
             | Some (d', ts') \<Rightarrow> if 300000 < clock ?s + int dt - ts' then None else Some (d', ts'))"
      by (simp add: sweep_def tick_fields split: option.splits)
  }
  {
    assume "clock ?s + int dt - last_sweep ?s < 600000"
    then show "contentCache (step (Sweep dt) ?s) = contentCache ?s"
      by (simp add: sweep_def tick_fields)
  }
qed


theorem cache_expiry_witness:
  "(contentCache (run [Arrive 0 1 sample_key, Settle 1200 0 (Fulfilled 77)] init) sample_key =
      Some (77, 1200) \<and>
    300000 \<le> clock (run [Arrive 0 1 sample_key, Settle 1200 0 (Fulfilled 77)] init)
       + int 300000 - 1200 \<and>
    inflightRequests (run [Arrive 0 1 sample_key, Settle 1200 0 (Fulfilled 77)] init) sample_key = None \<and>
    clock (run [Arrive 0 1 sample_key, Settle 1200 0 (Fulfilled 77)] init) + int 299999 - 1200 < 300000 \<and>
    600000 \<le> clock (run [Arrive 0 1 sample_key, Settle 1200 0 (Fulfilled 77)] init) + int 600000
       - last_sweep (run [Arrive 0 1 sample_key, Settle 1200 0 (Fulfilled 77)] init) \<and>
    clock (run [Arrive 0 1 sample_key, Settle 1200 0 (Fulfilled 77)] init) + int 100
       - last_sweep (run [Arrive 0 1 sample_key, Settle 1200 0 (Fulfilled 77)] init) < 600000) \<and>
   replies (step (Arrive 300000 2 sample_key)
      (run [Arrive 0 1 sample_key, Settle 1200 0 (Fulfilled 77)] init)) =
     replies (run [Arrive 0 1 sample_key, Settle 1200 0 (Fulfilled 77)] init) \<and>
   produced (step (Arrive 300000 2 sample_key)
      (run [Arrive 0 1 sample_key, Settle 1200 0 (Fulfilled 77)] init)) =
     produced (run [Arrive 0 1 sample_key, Settle 1200 0 (Fulfilled 77)] init) @
       [(sample_key, next_promise (run [Arrive 0 1 sample_key, Settle 1200 0 (Fulfilled 77)] init))] \<and>
   replies (step (Arrive 299999 2 sample_key)
      (run [Arrive 0 1 sample_key, Settle 1200 0 (Fulfilled 77)] init)) =
     replies (run [Arrive 0 1 sample_key, Settle 1200 0 (Fulfilled 77)] init) @ [(2, Json 77)] \<and>
   produced (step (Arrive 299999 2 sample_key)
      (run [Arrive 0 1 sample_key, Settle 1200 0 (Fulfilled 77)] init)) =
     produced (run [Arrive 0 1 sample_key, Settle 1200 0 (Fulfilled 77)] init) \<and>
   contentCache (step (Sweep 600000)
      (run [Arrive 0 1 sample_key, Settle 1200 0 (Fulfilled 77)] init)) sample_key = None \<and>
   contentCache (step (Sweep 100)
      (run [Arrive 0 1 sample_key, Settle 1200 0 (Fulfilled 77)] init)) =
     contentCache (run [Arrive 0 1 sample_key, Settle 1200 0 (Fulfilled 77)] init)"
proof -
  let ?s = "run [Arrive 0 1 sample_key, Settle 1200 0 (Fulfilled 77)] init"
  have c: "contentCache ?s sample_key = Some (77, 1200)"
    and k: "clock ?s = 1200" and l: "last_sweep ?s = 0"
    and n: "inflightRequests ?s sample_key = None"
    by (simp_all add: coord_eval)
  have h: "contentCache ?s sample_key = Some (77, 1200) \<and>
    300000 \<le> clock ?s + int 300000 - 1200 \<and>
    inflightRequests ?s sample_key = None \<and>
    clock ?s + int 299999 - 1200 < 300000 \<and>
    600000 \<le> clock ?s + int 600000 - last_sweep ?s \<and>
    clock ?s + int 100 - last_sweep ?s < 600000"
    unfolding c k l n by simp
  note t = cache_expiry[of "[Arrive 0 1 sample_key, Settle 1200 0 (Fulfilled 77)]" sample_key 77 1200,
      unfolded Let_def]
  have h1: "contentCache ?s sample_key = Some (77, 1200) \<and> 300000 \<le> clock ?s + int 300000 - 1200"
    and h2: "inflightRequests ?s sample_key = None"
    and h3: "contentCache ?s sample_key = Some (77, 1200) \<and> clock ?s + int 299999 - 1200 < 300000"
    and h4: "600000 \<le> clock ?s + int 600000 - last_sweep ?s"
    and h5: "clock ?s + int 100 - last_sweep ?s < 600000"
    using h by (simp_all only: simp_thms)
  note a0 = t[of 300000 2, THEN conjunct1, THEN mp, OF h1]
  have a: "replies (step (Arrive 300000 2 sample_key) ?s) = replies ?s \<and>
      produced (step (Arrive 300000 2 sample_key) ?s) = produced ?s @ [(sample_key, next_promise ?s)]"
    using conjunct1[OF a0] conjunct2[OF a0, THEN mp, OF h2] by (rule conjI)
  have b: "replies (step (Arrive 299999 2 sample_key) ?s) = replies ?s @ [(2, Json 77)] \<and>
      produced (step (Arrive 299999 2 sample_key) ?s) = produced ?s"
    by (rule t[of 299999 2, THEN conjunct2, THEN conjunct1, THEN mp, OF h3])
  from t[of 600000 2, THEN conjunct2, THEN conjunct2, THEN conjunct1, THEN mp, OF h4]
  have d: "contentCache (step (Sweep 600000) ?s) sample_key = None"
    by (simp only: c k) simp
  have e: "contentCache (step (Sweep 100) ?s) = contentCache ?s"
    by (rule t[of 100 2, THEN conjunct2, THEN conjunct2, THEN conjunct2, THEN mp, OF h5])
  from h a b d e show ?thesis by (simp only: simp_thms)
qed


end
